theory Spec2Isabelle
  imports Main
begin

section \<open>C strings and the libc routines used by dooshki\_args.c\<close>

text \<open>
  A C string is modelled by the list of its characters before the terminating NUL.
  Reading the character at an index returns NUL at the terminator.
\<close>

definition char_at :: "string \<Rightarrow> nat \<Rightarrow> char" where
  "char_at s i = (if i < length s then s ! i else CHR 0x00)"

text \<open>
  \<open>strcmp\<close> and \<open>strncmp\<close> of ISO C; only the sign of the result is specified there,
  so the model returns \<open>-1\<close>, \<open>0\<close> or \<open>1\<close>.
\<close>

fun strcmp :: "string \<Rightarrow> string \<Rightarrow> int" where
  "strcmp [] [] = 0"
| "strcmp [] (y # ys) = - 1"
| "strcmp (x # xs) [] = 1"
| "strcmp (x # xs) (y # ys) =
     (if x = y then strcmp xs ys
      else if (of_char x :: nat) < of_char y then - 1 else 1)"

fun strncmp :: "string \<Rightarrow> string \<Rightarrow> nat \<Rightarrow> int" where
  "strncmp s1 s2 0 = 0"
| "strncmp [] [] (Suc n) = 0"
| "strncmp [] (y # ys) (Suc n) = - 1"
| "strncmp (x # xs) [] (Suc n) = 1"
| "strncmp (x # xs) (y # ys) (Suc n) =
     (if x = y then strncmp xs ys n
      else if (of_char x :: nat) < of_char y then - 1 else 1)"

text \<open>\<open>isspace\<close> and \<open>isdigit\<close> in the C locale.\<close>

definition isspace :: "char \<Rightarrow> bool" where
  "isspace c = (c = CHR '' '' \<or> c = CHR 0x09 \<or> c = CHR 0x0A \<or> c = CHR 0x0B
                \<or> c = CHR 0x0C \<or> c = CHR 0x0D)"

definition isdigit :: "char \<Rightarrow> bool" where
  "isdigit c = (48 \<le> (of_char c :: nat) \<and> (of_char c :: nat) \<le> 57)"

definition digit_val :: "char \<Rightarrow> int" where
  "digit_val c = of_char c - 48"

fun dec_value :: "int \<Rightarrow> string \<Rightarrow> int" where
  "dec_value acc [] = acc"
| "dec_value acc (c # cs) = dec_value (acc * 10 + digit_val c) cs"

text \<open>Limits of \<open>long\<close> and \<open>unsigned long\<close> from limits.h, for an LP64 platform.\<close>

definition ULONG_MAX :: int where
  "ULONG_MAX = 2 ^ 64 - 1"

definition LONG_MAX :: int where
  "LONG_MAX = 2 ^ 63 - 1"

definition LONG_MIN :: int where
  "LONG_MIN = - (2 ^ 63)"

text \<open>
  The subject sequence of \<open>strtoul\<close>/\<open>strtol\<close> in base 10: leading white space, an optional
  sign, then the longest run of decimal digits.  The result is the sign, the digits and
  the offset of the first character after them; no digits means no conversion, and the
  end pointer is then the start of the string.
\<close>

definition subject_sequence :: "string \<Rightarrow> bool \<times> string \<times> nat" where
  "subject_sequence s =
     (let r1 = dropWhile isspace s;
          neg = (r1 \<noteq> [] \<and> hd r1 = CHR ''-'');
          r2 = (if r1 \<noteq> [] \<and> (hd r1 = CHR ''-'' \<or> hd r1 = CHR ''+'') then tl r1 else r1);
          ds = takeWhile isdigit r2
      in if ds = [] then (False, [], 0)
         else (neg, ds, length s - length (dropWhile isdigit r2)))"

text \<open>
  \<open>strtoul (argument, &test_ptr, 10)\<close> with \<open>errno\<close> cleared before the call: the value
  returned, the offset \<open>test_ptr - argument\<close>, and whether \<open>errno\<close> is \<open>ERANGE\<close>
  afterwards.  A value out of range gives \<open>ULONG_MAX\<close> and \<open>ERANGE\<close>; a minus sign
  negates the value in the unsigned type.
\<close>

definition strtoul :: "string \<Rightarrow> int \<times> nat \<times> bool" where
  "strtoul s =
     (case subject_sequence s of (neg, ds, endp) \<Rightarrow>
        if ds = [] then (0, endp, False)
        else let n = dec_value 0 ds
             in if ULONG_MAX < n then (ULONG_MAX, endp, True)
                else ((if neg then (2 ^ 64 - n) mod 2 ^ 64 else n), endp, False))"

text \<open>\<open>strtol (argument, &test_ptr, 10)\<close>, in the same way.\<close>

definition strtol :: "string \<Rightarrow> int \<times> nat \<times> bool" where
  "strtol s =
     (case subject_sequence s of (neg, ds, endp) \<Rightarrow>
        if ds = [] then (0, endp, False)
        else let n = dec_value 0 ds
             in if neg then (if n > - LONG_MIN then (LONG_MIN, endp, True) else (- n, endp, False))
                else (if n > LONG_MAX then (LONG_MAX, endp, True) else (n, endp, False)))"

text \<open>
  A \<open>double\<close>: a finite binary fraction (mantissa and exponent), an infinity with its
  sign, or a NaN.  \<open>strtod\<close> itself is a parameter of the model (a function giving the
  value, the end offset and whether \<open>errno\<close> is \<open>ERANGE\<close>).
\<close>

datatype double = Dbl_finite int int | Dbl_inf bool | Dbl_nan

definition HUGE_VAL :: double where
  "HUGE_VAL = Dbl_inf False"

definition NEG_HUGE_VAL :: double where
  "NEG_HUGE_VAL = Dbl_inf True"

fun dbl_is_zero :: "double \<Rightarrow> bool" where
  "dbl_is_zero (Dbl_finite m e) = (m = 0)"
| "dbl_is_zero _ = False"

type_synonym strtod_fn = "string \<Rightarrow> double \<times> nat \<times> bool"

section \<open>Data model of dooshki\_args.h\<close>

datatype dooshki_opt_type =
    DOOSHKI_OPT_BOOL
  | DOOSHKI_OPT_NEGBOOL
  | DOOSHKI_OPT_STR
  | DOOSHKI_OPT_INT
  | DOOSHKI_OPT_UINT
  | DOOSHKI_OPT_FLOAT
  | DOOSHKI_OPT_CB
  | DOOSHKI_OPT_CB_NOARG

text \<open>
  The caller's storage: a store from addresses to the objects they hold.  \<open>opt_storage\<close>
  and \<open>opt_found\<close> of several descriptors may name the same address.
\<close>

type_synonym addr = nat

datatype cval =
    Char_val int
  | Str_val string
  | Long_val int
  | ULong_val int
  | Double_val double
  | User_val nat

type_synonym memory = "addr \<Rightarrow> cval option"

text \<open>
  The callback interface: argument text (\<open>None\<close> is the \<open>NULL\<close> of
  \<open>DOOSHKI_OPT_CB_NOARG\<close>), \<open>opt_storage\<close>, \<open>opt_prefix\<close>, \<open>opt_name\<close>, \<open>callback_data\<close>.
  The routine may write to the caller's storage; it returns whether it succeeded.
\<close>

type_synonym callback_fn =
  "string option \<Rightarrow> addr \<Rightarrow> string \<Rightarrow> string \<Rightarrow> addr \<Rightarrow> memory \<Rightarrow> bool \<times> memory"

record dooshki_opt =
  short_name :: "string option"
  long_name :: "string option"
  argument_template :: "string option"
  opt_type :: dooshki_opt_type
  opt_storage :: addr
  opt_found :: "addr option"
  description :: "string option"
  callback :: callback_fn
  callback_data :: addr

text \<open>
  \<open>opt_desc\<close> holds the members of the array before its terminating all-\<open>NULL\<close> member.
  The loops of the parser stop at the first member whose names are both \<open>NULL\<close>, so they
  also stop at such a member inside the list.
\<close>

record dooshki_args =
  program_name :: string
  version :: string
  usage :: string
  summary :: string
  prog_description :: string
  opt_desc :: "dooshki_opt list"

datatype dooshki_args_ret =
    DOOSHKI_ARGS_PARSE_OK
  | DOOSHKI_ARGS_HELP_SHOWN
  | DOOSHKI_ARGS_VER_SHOWN
  | DOOSHKI_ARGS_PARSE_ERROR

text \<open>The messages \<open>print_error\<close> writes, one constructor for each format string.\<close>

datatype error_msg =
    Invalid_uint string string string
  | Invalid_int string string string
  | Invalid_float string string string
  | Too_large string string string
  | Too_small string string string
  | Underflow string string string
  | Unexpected_argument string string
  | Missing_argument string string
  | Unknown_type dooshki_opt_type string string
  | Unrecognized_option string
  | Unrecognized_short_option char

text \<open>
  What the parser changes while it scans: the argument vector (\<open>None\<close> is an entry set to
  \<open>NULL\<close>), the caller's storage, the three flags of \<open>dooshki_args_parse\<close>, and the error
  messages printed so far.
\<close>

record parse_state =
  argv :: "string option list"
  mem :: memory
  show_help :: bool
  show_version :: bool
  errors_found :: bool
  err_out :: "error_msg list"

definition print_error :: "error_msg \<Rightarrow> parse_state \<Rightarrow> parse_state" where
  "print_error e st = st\<lparr>err_out := err_out st @ [e]\<rparr>"

definition set_errors_found :: "parse_state \<Rightarrow> parse_state" where
  "set_errors_found st = st\<lparr>errors_found := True\<rparr>"

definition store :: "addr \<Rightarrow> cval \<Rightarrow> parse_state \<Rightarrow> parse_state" where
  "store a v st = st\<lparr>mem := (mem st)(a \<mapsto> v)\<rparr>"

section \<open>Value conversion\<close>

definition process_str_arg :: "dooshki_opt \<Rightarrow> string \<Rightarrow> parse_state \<Rightarrow> bool \<times> parse_state" where
  "process_str_arg option argument st = (True, store (opt_storage option) (Str_val argument) st)"

definition process_uint_arg ::
  "dooshki_opt \<Rightarrow> string \<Rightarrow> string \<Rightarrow> string \<Rightarrow> parse_state \<Rightarrow> bool \<times> parse_state" where
  "process_uint_arg option opt_prefix opt_name argument st =
     (case strtoul argument of (v, test_ptr, erange) \<Rightarrow>
        let st1 = store (opt_storage option) (ULong_val v) st
        in if char_at argument test_ptr \<noteq> CHR 0x00 \<or> char_at argument 0 = CHR ''-''
           then (False, print_error (Invalid_uint argument opt_prefix opt_name) st1)
           else if v = ULONG_MAX \<and> erange
           then (False, print_error (Too_large argument opt_prefix opt_name) st1)
           else (True, st1))"

definition process_int_arg ::
  "dooshki_opt \<Rightarrow> string \<Rightarrow> string \<Rightarrow> string \<Rightarrow> parse_state \<Rightarrow> bool \<times> parse_state" where
  "process_int_arg option opt_prefix opt_name argument st =
     (case strtol argument of (v, test_ptr, erange) \<Rightarrow>
        let st1 = store (opt_storage option) (Long_val v) st
        in if char_at argument test_ptr \<noteq> CHR 0x00
           then (False, print_error (Invalid_int argument opt_prefix opt_name) st1)
           else if v = LONG_MAX \<and> erange
           then (False, print_error (Too_large argument opt_prefix opt_name) st1)
           else if v = LONG_MIN \<and> erange
           then (False, print_error (Too_small argument opt_prefix opt_name) st1)
           else (True, st1))"

definition process_float_arg ::
  "strtod_fn \<Rightarrow> dooshki_opt \<Rightarrow> string \<Rightarrow> string \<Rightarrow> string \<Rightarrow> parse_state
     \<Rightarrow> bool \<times> parse_state" where
  "process_float_arg strtod option opt_prefix opt_name argument st =
     (case strtod argument of (v, test_ptr, erange) \<Rightarrow>
        let st1 = store (opt_storage option) (Double_val v) st
        in if char_at argument test_ptr \<noteq> CHR 0x00
           then (False, print_error (Invalid_float argument opt_prefix opt_name) st1)
           else if v = HUGE_VAL \<and> erange
           then (False, print_error (Too_large argument opt_prefix opt_name) st1)
           else if v = NEG_HUGE_VAL \<and> erange
           then (False, print_error (Too_small argument opt_prefix opt_name) st1)
           else if dbl_is_zero v \<and> erange
           then (False, print_error (Underflow argument opt_prefix opt_name) st1)
           else (True, st1))"

definition run_callback ::
  "dooshki_opt \<Rightarrow> string option \<Rightarrow> string \<Rightarrow> string \<Rightarrow> parse_state \<Rightarrow> bool \<times> parse_state" where
  "run_callback option argument opt_prefix opt_name st =
     (case callback option argument (opt_storage option) opt_prefix opt_name
             (callback_data option) (mem st) of
        (ok, m) \<Rightarrow> (ok, st\<lparr>mem := m\<rparr>))"

text \<open>
  \<open>process_opt_arg\<close>: the prefix and name for messages, then the conversion chosen by the
  type.  The two Boolean types and \<open>DOOSHKI_OPT_CB_NOARG\<close> fall into the \<open>default\<close>
  branch of the C \<open>switch\<close>.
\<close>

definition process_opt_arg ::
  "strtod_fn \<Rightarrow> dooshki_opt \<Rightarrow> bool \<Rightarrow> string \<Rightarrow> parse_state \<Rightarrow> bool \<times> parse_state" where
  "process_opt_arg strtod option opt_is_long argument st =
     (let opt_prefix = (if opt_is_long then ''--'' else ''-'');
          opt_name = (if opt_is_long then the (long_name option) else the (short_name option))
      in case opt_type option of
           DOOSHKI_OPT_STR \<Rightarrow> process_str_arg option argument st
         | DOOSHKI_OPT_INT \<Rightarrow> process_int_arg option opt_prefix opt_name argument st
         | DOOSHKI_OPT_UINT \<Rightarrow> process_uint_arg option opt_prefix opt_name argument st
         | DOOSHKI_OPT_FLOAT \<Rightarrow> process_float_arg strtod option opt_prefix opt_name argument st
         | DOOSHKI_OPT_CB \<Rightarrow> run_callback option (Some argument) opt_prefix opt_name st
         | _ \<Rightarrow> (False, print_error (Unknown_type (opt_type option) opt_prefix opt_name) st))"

section \<open>Taking the next word as an option's argument\<close>

text \<open>
  The loop of \<open>process_long_opt\<close> that looks for the argument of an option after
  \<open>opt_argi\<close>: entries already set to \<open>NULL\<close> are skipped; the first other entry ends
  the loop, and is taken (and set to \<open>NULL\<close>) unless it is \<open>--\<close>.
\<close>

function long_arg_loop :: "nat \<Rightarrow> nat \<Rightarrow> string option list \<Rightarrow> string option \<times> string option list" where
  "long_arg_loop argc arg_iter av =
     (if arg_iter < argc then
        (case av ! arg_iter of
           None \<Rightarrow> long_arg_loop argc (arg_iter + 1) av
         | Some t \<Rightarrow>
             if strcmp t ''--'' = 0 then (None, av)
             else (Some t, av[arg_iter := None]))
      else (None, av))"
  by pat_completeness auto
termination
  by (relation "measure (\<lambda>(argc, arg_iter, av). argc - arg_iter)") auto

declare long_arg_loop.simps [simp del]

text \<open>
  The same search in \<open>process_short_opts\<close>, where the loop condition tests
  \<open>argument == NULL\<close> instead of leaving with \<open>break\<close>.
\<close>

function short_arg_loop ::
  "nat \<Rightarrow> nat \<Rightarrow> string option \<Rightarrow> string option list \<Rightarrow> string option \<times> string option list" where
  "short_arg_loop argc arg_iter argument av =
     (if arg_iter < argc \<and> argument = None then
        (case av ! arg_iter of
           None \<Rightarrow> short_arg_loop argc (arg_iter + 1) argument av
         | Some t \<Rightarrow>
             if strcmp t ''--'' = 0 then (argument, av)
             else short_arg_loop argc (arg_iter + 1) (Some t) (av[arg_iter := None]))
      else (argument, av))"
  by pat_completeness auto
termination
  by (relation "measure (\<lambda>(argc, arg_iter, argument, av). argc - arg_iter)") auto

declare short_arg_loop.simps [simp del]

section \<open>Long options\<close>

definition mark_found :: "dooshki_opt \<Rightarrow> parse_state \<Rightarrow> parse_state" where
  "mark_found d st = (case opt_found d of None \<Rightarrow> st | Some a \<Rightarrow> store a (Char_val 1) st)"

definition convert_arg ::
  "strtod_fn \<Rightarrow> dooshki_opt \<Rightarrow> bool \<Rightarrow> string \<Rightarrow> parse_state \<Rightarrow> parse_state" where
  "convert_arg strtod d opt_is_long argument st =
     (case process_opt_arg strtod d opt_is_long argument st of
        (ok, st2) \<Rightarrow> if \<not> ok then set_errors_found st2 else st2)"

definition unexpected_argument :: "dooshki_opt \<Rightarrow> string \<Rightarrow> parse_state \<Rightarrow> parse_state" where
  "unexpected_argument d argument st =
     set_errors_found (print_error (Unexpected_argument argument (the (long_name d))) st)"

text \<open>The body of the table loop of \<open>process_long_opt\<close> once \<open>strncmp\<close> has matched.\<close>

definition long_opt_found ::
  "strtod_fn \<Rightarrow> nat \<Rightarrow> nat \<Rightarrow> dooshki_opt \<Rightarrow> string option \<Rightarrow> parse_state \<Rightarrow> parse_state" where
  "long_opt_found strtod argc opt_argi d argument st =
     (let st1 = mark_found d st
      in if opt_type d = DOOSHKI_OPT_BOOL then
           (case argument of
              Some a \<Rightarrow> unexpected_argument d a st1
            | None \<Rightarrow> store (opt_storage d) (Char_val 1) st1)
         else if opt_type d = DOOSHKI_OPT_NEGBOOL then
           (case argument of
              Some a \<Rightarrow> unexpected_argument d a st1
            | None \<Rightarrow> store (opt_storage d) (Char_val 0) st1)
         else if opt_type d = DOOSHKI_OPT_CB_NOARG then
           (case argument of
              Some a \<Rightarrow> unexpected_argument d a st1
            | None \<Rightarrow>
                (case run_callback d None ''--'' (the (long_name d)) st1 of
                   (ok, st2) \<Rightarrow> if \<not> ok then set_errors_found st2 else st2))
         else
           (case argument of
              Some a \<Rightarrow> convert_arg strtod d True a st1
            | None \<Rightarrow>
                (case long_arg_loop argc (opt_argi + 1) (argv st1) of
                   (None, av) \<Rightarrow>
                     set_errors_found
                       (print_error (Missing_argument ''--'' (the (long_name d)))
                          (st1\<lparr>argv := av\<rparr>))
                 | (Some a, av) \<Rightarrow> convert_arg strtod d True a (st1\<lparr>argv := av\<rparr>))))"

definition unrecognized_long :: "string \<Rightarrow> parse_state \<Rightarrow> parse_state" where
  "unrecognized_long option st = set_errors_found (print_error (Unrecognized_option option) st)"

text \<open>
  The table loop of \<open>process_long_opt\<close>: it ends at the member whose names are both
  \<open>NULL\<close>, skips members without a long name, and takes the first member for which
  \<open>strncmp (option + 2, long_name, opt_len)\<close> is 0.
\<close>

fun long_opt_loop ::
  "strtod_fn \<Rightarrow> nat \<Rightarrow> nat \<Rightarrow> string \<Rightarrow> nat \<Rightarrow> string option \<Rightarrow> dooshki_opt list
     \<Rightarrow> parse_state \<Rightarrow> parse_state" where
  "long_opt_loop strtod argc opt_argi option opt_len argument [] st =
     unrecognized_long option st"
| "long_opt_loop strtod argc opt_argi option opt_len argument (d # ds) st =
     (if short_name d = None \<and> long_name d = None then unrecognized_long option st
      else case long_name d of
             None \<Rightarrow> long_opt_loop strtod argc opt_argi option opt_len argument ds st
           | Some ln \<Rightarrow>
               if strncmp (drop 2 option) ln opt_len = 0
               then long_opt_found strtod argc opt_argi d argument st
               else long_opt_loop strtod argc opt_argi option opt_len argument ds st)"

text \<open>The loop that finds the end of the option's name: the first \<open>=\<close> or the terminator.\<close>

function name_end :: "string \<Rightarrow> nat \<Rightarrow> nat" where
  "name_end option iter =
     (if char_at option iter \<noteq> CHR 0x00 \<and> char_at option iter \<noteq> CHR ''=''
      then name_end option (iter + 1) else iter)"
  by pat_completeness auto
termination
  by (relation "measure (\<lambda>(option, iter). length option - iter)")
     (auto simp: char_at_def split: if_splits)

declare name_end.simps [simp del]

definition set_show_help :: "parse_state \<Rightarrow> parse_state" where
  "set_show_help st = (if \<not> show_version st then st\<lparr>show_help := True\<rparr> else st)"

definition set_show_version :: "parse_state \<Rightarrow> parse_state" where
  "set_show_version st = (if \<not> show_help st then st\<lparr>show_version := True\<rparr> else st)"

definition process_long_opt ::
  "strtod_fn \<Rightarrow> dooshki_args \<Rightarrow> nat \<Rightarrow> nat \<Rightarrow> parse_state \<Rightarrow> parse_state" where
  "process_long_opt strtod args_ctxt argc opt_argi st =
     (let option = the (argv st ! opt_argi)
      in if strcmp option ''--help'' = 0 then set_show_help st
         else if strcmp option ''--version'' = 0 then set_show_version st
         else
           (let iter = name_end option 2;
                opt_len = iter - 2;
                argument = (if char_at option iter = CHR ''=''
                            then Some (drop (iter + 1) option) else None)
            in long_opt_loop strtod argc opt_argi option opt_len argument
                 (opt_desc args_ctxt) st))"

section \<open>Short options\<close>

text \<open>The body of the table loop of \<open>process_short_opts\<close> once the character has matched.\<close>

definition short_opt_found ::
  "strtod_fn \<Rightarrow> nat \<Rightarrow> nat \<Rightarrow> dooshki_opt \<Rightarrow> parse_state \<Rightarrow> parse_state" where
  "short_opt_found strtod argc opt_argi d st =
     (let st1 = mark_found d st
      in if opt_type d = DOOSHKI_OPT_BOOL then store (opt_storage d) (Char_val 1) st1
         else if opt_type d = DOOSHKI_OPT_NEGBOOL then store (opt_storage d) (Char_val 0) st1
         else if opt_type d = DOOSHKI_OPT_CB_NOARG then
           (case run_callback d None ''-'' (the (short_name d)) st1 of
              (ok, st2) \<Rightarrow> if \<not> ok then set_errors_found st2 else st2)
         else
           (case short_arg_loop argc (opt_argi + 1) None (argv st1) of
              (None, av) \<Rightarrow>
                set_errors_found
                  (print_error (Missing_argument ''-'' (the (short_name d)))
                     (st1\<lparr>argv := av\<rparr>))
            | (Some a, av) \<Rightarrow> convert_arg strtod d False a (st1\<lparr>argv := av\<rparr>)))"

definition unrecognized_short :: "char \<Rightarrow> parse_state \<Rightarrow> parse_state" where
  "unrecognized_short c st = set_errors_found (print_error (Unrecognized_short_option c) st)"

fun short_opt_loop ::
  "strtod_fn \<Rightarrow> nat \<Rightarrow> nat \<Rightarrow> char \<Rightarrow> dooshki_opt list \<Rightarrow> parse_state \<Rightarrow> parse_state" where
  "short_opt_loop strtod argc opt_argi c [] st = unrecognized_short c st"
| "short_opt_loop strtod argc opt_argi c (d # ds) st =
     (if short_name d = None \<and> long_name d = None then unrecognized_short c st
      else case short_name d of
             None \<Rightarrow> short_opt_loop strtod argc opt_argi c ds st
           | Some sn \<Rightarrow>
               if c = char_at sn 0
               then short_opt_found strtod argc opt_argi d st
               else short_opt_loop strtod argc opt_argi c ds st)"

text \<open>The loop over the characters of the word, from index \<open>in_iter\<close>.\<close>

function short_chars_loop ::
  "strtod_fn \<Rightarrow> dooshki_args \<Rightarrow> nat \<Rightarrow> nat \<Rightarrow> string \<Rightarrow> nat \<Rightarrow> parse_state \<Rightarrow> parse_state" where
  "short_chars_loop strtod args_ctxt argc opt_argi options in_iter st =
     (if char_at options in_iter \<noteq> CHR 0x00 then
        short_chars_loop strtod args_ctxt argc opt_argi options (in_iter + 1)
          (if char_at options in_iter = CHR ''h'' then set_show_help st
           else if char_at options in_iter = CHR ''V'' then set_show_version st
           else short_opt_loop strtod argc opt_argi (char_at options in_iter)
                  (opt_desc args_ctxt) st)
      else st)"
  by pat_completeness auto
termination
  by (relation "measure (\<lambda>(strtod, args_ctxt, argc, opt_argi, options, in_iter, st).
                            length options - in_iter)")
     (auto simp: char_at_def split: if_splits)

declare short_chars_loop.simps [simp del]

definition process_short_opts ::
  "strtod_fn \<Rightarrow> dooshki_args \<Rightarrow> nat \<Rightarrow> nat \<Rightarrow> parse_state \<Rightarrow> parse_state" where
  "process_short_opts strtod args_ctxt argc opt_argi st =
     short_chars_loop strtod args_ctxt argc opt_argi (the (argv st ! opt_argi)) 1 st"

section \<open>Compaction of the argument vector\<close>

function pull_loop :: "nat \<Rightarrow> nat \<Rightarrow> nat \<Rightarrow> string option list \<Rightarrow> string option list" where
  "pull_loop argc fill_iter pull_iter av =
     (if pull_iter < argc then
        (if av ! pull_iter \<noteq> None
         then (av[fill_iter := av ! pull_iter])[pull_iter := None]
         else pull_loop argc fill_iter (pull_iter + 1) av)
      else av)"
  by pat_completeness auto
termination
  by (relation "measure (\<lambda>(argc, fill_iter, pull_iter, av). argc - pull_iter)") auto

declare pull_loop.simps [simp del]

function deflate_loop :: "nat \<Rightarrow> nat \<Rightarrow> string option list \<Rightarrow> nat \<times> string option list" where
  "deflate_loop argc fill_iter av =
     (if fill_iter < argc then
        (let av1 = (if av ! fill_iter = None
                    then pull_loop argc fill_iter (fill_iter + 1) av else av)
         in if av1 ! fill_iter = None then (fill_iter, av1)
            else deflate_loop argc (fill_iter + 1) av1)
      else (fill_iter, av))"
  by pat_completeness auto
termination
  by (relation "measure (\<lambda>(argc, fill_iter, av). argc - fill_iter)") auto

declare deflate_loop.simps [simp del]

text \<open>\<open>deflate_args_list\<close> returns the new \<open>*argc\<close> and the vector.\<close>

definition deflate_args_list :: "nat \<Rightarrow> string option list \<Rightarrow> nat \<times> string option list" where
  "deflate_args_list argc av = deflate_loop argc 1 av"

section \<open>The parser\<close>

text \<open>One iteration of the scanning loop: the new \<open>stopper_reached\<close> and the new state.\<close>

definition scan_step ::
  "strtod_fn \<Rightarrow> dooshki_args \<Rightarrow> nat \<Rightarrow> nat \<Rightarrow> parse_state \<Rightarrow> bool \<times> parse_state" where
  "scan_step strtod args_ctxt argc arg_iter st =
     (case argv st ! arg_iter of
        None \<Rightarrow> (False, st)
      | Some t \<Rightarrow>
          if char_at t 0 = CHR ''-'' then
            (let (stopper_reached, st1) =
                   (if char_at t 1 = CHR ''-'' then
                      (if char_at t 2 = CHR 0x00 then (True, st)
                       else (False, process_long_opt strtod args_ctxt argc arg_iter st))
                    else (False, process_short_opts strtod args_ctxt argc arg_iter st))
             in (stopper_reached, st1\<lparr>argv := (argv st1)[arg_iter := None]\<rparr>))
          else (False, st))"

function scan_loop ::
  "strtod_fn \<Rightarrow> dooshki_args \<Rightarrow> nat \<Rightarrow> nat \<Rightarrow> bool \<Rightarrow> parse_state \<Rightarrow> parse_state" where
  "scan_loop strtod args_ctxt argc arg_iter stopper_reached st =
     (if arg_iter < argc \<and> \<not> stopper_reached then
        (case scan_step strtod args_ctxt argc arg_iter st of
           (stopper_reached', st') \<Rightarrow>
             scan_loop strtod args_ctxt argc (arg_iter + 1) stopper_reached' st')
      else st)"
  by pat_completeness auto
termination
  by (relation "measure (\<lambda>(strtod, args_ctxt, argc, arg_iter, stopper_reached, st).
                            argc - arg_iter)") auto

declare scan_loop.simps [simp del]

definition initial_state :: "string option list \<Rightarrow> memory \<Rightarrow> parse_state" where
  "initial_state av m =
     \<lparr>argv = av, mem = m, show_help = False, show_version = False,
      errors_found = False, err_out = []\<rparr>"

definition outcome :: "parse_state \<Rightarrow> dooshki_args_ret" where
  "outcome st =
     (if show_help st then DOOSHKI_ARGS_HELP_SHOWN
      else if show_version st then DOOSHKI_ARGS_VER_SHOWN
      else if errors_found st then DOOSHKI_ARGS_PARSE_ERROR
      else DOOSHKI_ARGS_PARSE_OK)"

text \<open>
  What a call of \<open>dooshki_args_parse\<close> leaves: the value returned, the new \<open>*argc\<close>, the
  vector \<open>*argv\<close>, the caller's storage and the error messages printed.
\<close>

record parse_result =
  ret :: dooshki_args_ret
  res_argc :: nat
  res_argv :: "string option list"
  res_mem :: memory
  res_err :: "error_msg list"

definition dooshki_args_parse ::
  "strtod_fn \<Rightarrow> dooshki_args \<Rightarrow> nat \<Rightarrow> string option list \<Rightarrow> memory \<Rightarrow> parse_result" where
  "dooshki_args_parse strtod args_ctxt argc av m =
     (let st = scan_loop strtod args_ctxt argc 1 False (initial_state av m);
          (argc', av') = deflate_args_list argc (argv st)
      in \<lparr>ret = outcome st, res_argc = argc', res_argv = av', res_mem = mem st,
          res_err = err_out st\<rparr>)"

text \<open>
  The vector \<open>main\<close> receives for a list of words, with its count, and the words a
  caller reads back from the first \<open>*argc\<close> entries after the call.
\<close>

definition words_of :: "parse_result \<Rightarrow> string option list" where
  "words_of r = take (res_argc r) (res_argv r)"

section \<open>Definitions used to state the properties\<close>

text \<open>A C string holds no NUL before its terminator.\<close>

definition c_string :: "string \<Rightarrow> bool" where
  "c_string s = (CHR 0x00 \<notin> set s)"

subsection \<open>Looking an option up in the table\<close>

definition is_terminator :: "dooshki_opt \<Rightarrow> bool" where
  "is_terminator d = (short_name d = None \<and> long_name d = None)"

text \<open>The members of the table before its terminator.\<close>

definition table_members :: "dooshki_opt list \<Rightarrow> dooshki_opt list" where
  "table_members tbl = takeWhile (\<lambda>d. \<not> is_terminator d) tbl"

text \<open>
  The candidate name of a long option word: what follows the two dashes, up to the first
  \<open>=\<close> or the end of the word; and the inline value after that \<open>=\<close>, if there is one.
\<close>

definition name_char :: "char \<Rightarrow> bool" where
  "name_char c = (c \<noteq> CHR 0x00 \<and> c \<noteq> CHR ''='')"

definition candidate_name :: "string \<Rightarrow> string" where
  "candidate_name option = takeWhile name_char (drop 2 option)"

definition inline_value :: "string \<Rightarrow> string option" where
  "inline_value option =
     (case dropWhile name_char (drop 2 option) of
        [] \<Rightarrow> None
      | c # rest \<Rightarrow> if c = CHR ''='' then Some rest else None)"

text \<open>
  A descriptor matches a candidate name when it has a long name whose first characters,
  as many as the candidate has, are the candidate.
\<close>

definition long_name_matches :: "string \<Rightarrow> dooshki_opt \<Rightarrow> bool" where
  "long_name_matches cand d =
     (case long_name d of None \<Rightarrow> False | Some ln \<Rightarrow> take (length cand) ln = cand)"

definition first_long_match :: "dooshki_opt list \<Rightarrow> string \<Rightarrow> dooshki_opt option" where
  "first_long_match tbl cand = find (long_name_matches cand) (table_members tbl)"

definition short_name_matches :: "char \<Rightarrow> dooshki_opt \<Rightarrow> bool" where
  "short_name_matches c d =
     (case short_name d of None \<Rightarrow> False | Some sn \<Rightarrow> c = char_at sn 0)"

definition first_short_match :: "dooshki_opt list \<Rightarrow> char \<Rightarrow> dooshki_opt option" where
  "first_short_match tbl c = find (short_name_matches c) (table_members tbl)"

text \<open>
  An option takes a value unless it is of one of the two Boolean types or a callback
  without argument.  A character can name a short option of the table when it is not the
  terminator, not a dash and not one of the two built-in characters.
\<close>

definition takes_value :: "dooshki_opt \<Rightarrow> bool" where
  "takes_value d =
     (opt_type d \<noteq> DOOSHKI_OPT_BOOL \<and> opt_type d \<noteq> DOOSHKI_OPT_NEGBOOL
      \<and> opt_type d \<noteq> DOOSHKI_OPT_CB_NOARG)"

definition table_char :: "char \<Rightarrow> bool" where
  "table_char c =
     (c \<noteq> CHR 0x00 \<and> c \<noteq> CHR ''-'' \<and> c \<noteq> CHR ''h'' \<and> c \<noteq> CHR ''V'')"

text \<open>
  What \<open>process_short_opts\<close> does to the flags, the storage and the messages for a short
  option that takes a value: when no argument is found, and when the word \<open>a\<close> is taken.
\<close>

definition missing_short :: "dooshki_opt \<Rightarrow> parse_state \<Rightarrow> parse_state" where
  "missing_short d st =
     set_errors_found (print_error (Missing_argument ''-'' (the (short_name d))) (mark_found d st))"

definition take_short :: "strtod_fn \<Rightarrow> dooshki_opt \<Rightarrow> string \<Rightarrow> parse_state \<Rightarrow> parse_state" where
  "take_short strtod d a st = convert_arg strtod d False a (mark_found d st)"

subsection \<open>The configurations the scanning loop goes through\<close>

text \<open>
  A configuration is the index \<open>arg_iter\<close>, the flag \<open>stopper_reached\<close> and the state at the
  loop test.  \<open>scan_visits c c'\<close>: the loop started in \<open>c\<close> comes to \<open>c'\<close>.
\<close>

inductive scan_visits ::
  "strtod_fn \<Rightarrow> dooshki_args \<Rightarrow> nat \<Rightarrow> nat \<times> bool \<times> parse_state
     \<Rightarrow> nat \<times> bool \<times> parse_state \<Rightarrow> bool"
  for strtod :: strtod_fn and args_ctxt :: dooshki_args and argc :: nat
  where
    visits_here: "scan_visits strtod args_ctxt argc c c"
  | visits_step:
      "scan_visits strtod args_ctxt argc c (i, False, st) \<Longrightarrow> i < argc \<Longrightarrow>
       scan_step strtod args_ctxt argc i st = (stopper_reached, st') \<Longrightarrow>
       scan_visits strtod args_ctxt argc c (Suc i, stopper_reached, st')"

text \<open>
  From one state to a later one: the two flags are not both set if they were not, and a
  flag that was set is still set.
\<close>

definition flags_step :: "parse_state \<Rightarrow> parse_state \<Rightarrow> bool" where
  "flags_step st st' =
     ((\<not> (show_help st \<and> show_version st) \<longrightarrow> \<not> (show_help st' \<and> show_version st'))
      \<and> (show_help st \<longrightarrow> show_help st') \<and> (show_version st \<longrightarrow> show_version st'))"

subsection \<open>The built-in help and version options\<close>

text \<open>
  The words that ask for the help screen or for the version: \<open>--help\<close> and \<open>--version\<close>,
  and a cluster of short options, where the first of the characters \<open>h\<close> and \<open>V\<close> in it
  decides.
\<close>

datatype trigger = Help_trigger | Version_trigger

definition builtin_char :: "char \<Rightarrow> bool" where
  "builtin_char c = (c = CHR ''h'' \<or> c = CHR ''V'')"

definition cluster_chars :: "string \<Rightarrow> string" where
  "cluster_chars w = takeWhile (\<lambda>c. c \<noteq> CHR 0x00) (drop 1 w)"

definition trigger_of :: "string \<Rightarrow> trigger option" where
  "trigger_of w =
     (if char_at w 0 \<noteq> CHR ''-'' then None
      else if char_at w 1 = CHR ''-'' then
        (if w = ''--help'' then Some Help_trigger
         else if w = ''--version'' then Some Version_trigger
         else None)
      else (case find builtin_char (cluster_chars w) of
              None \<Rightarrow> None
            | Some c \<Rightarrow> if c = CHR ''h'' then Some Help_trigger else Some Version_trigger))"

subsection \<open>Errors registered during the scan\<close>

text \<open>
  The library registers an error by printing a message and setting \<open>errors_found\<close>.  A
  callback reports a failure by returning 0; \<open>errors_found\<close> is then set, and the library
  prints no message of its own.  \<open>callbacks_succeed\<close>: no callback of the table ever
  returns 0.
\<close>

definition callbacks_succeed :: "dooshki_opt list \<Rightarrow> bool" where
  "callbacks_succeed tbl =
     (\<forall>d \<in> set tbl. \<forall>arg sto p n cd m. fst (callback d arg sto p n cd m))"

text \<open>
  From one state to a later one: messages are only added, the error flag stays set, and it
  is set when a message was added.  With \<open>q\<close> (the callbacks involved succeed), the flag
  is set only if it was set or a message was added.
\<close>

definition err_rel :: "bool \<Rightarrow> parse_state \<Rightarrow> parse_state \<Rightarrow> bool" where
  "err_rel q st st' =
     (length (err_out st) \<le> length (err_out st')
      \<and> (errors_found st \<longrightarrow> errors_found st')
      \<and> (length (err_out st) < length (err_out st') \<longrightarrow> errors_found st')
      \<and> (q \<longrightarrow> errors_found st' \<longrightarrow> errors_found st \<or> length (err_out st) < length (err_out st')))"

definition cb_ok :: "bool \<Rightarrow> dooshki_opt \<Rightarrow> bool" where
  "cb_ok q d = (q \<longrightarrow> (\<forall>arg sto p n cd m. fst (callback d arg sto p n cd m)))"

subsection \<open>Value texts for unsigned integers\<close>

text \<open>
  A text is a numeral when it consists of optional white space, an optional sign and one
  or more decimal digits, and nothing else.
\<close>

definition numeral_text :: "string \<Rightarrow> bool" where
  "numeral_text s =
     (let r = dropWhile isspace s;
          ds = (if r \<noteq> [] \<and> (hd r = CHR ''-'' \<or> hd r = CHR ''+'') then tl r else r)
      in ds \<noteq> [] \<and> list_all isdigit ds)"

text \<open>
  What is done for an occurrence of the option \<open>d\<close> whose value text \<open>s\<close> is rejected as
  not a valid unsigned integer: the found flag is set, the result of \<open>strtoul\<close> is stored
  in the destination, the message is printed and the error flag is set.
\<close>

definition uint_rejected :: "dooshki_opt \<Rightarrow> string \<Rightarrow> string \<Rightarrow> string \<Rightarrow> parse_state \<Rightarrow> parse_state" where
  "uint_rejected d s pfx nm st =
     set_errors_found
       (print_error (Invalid_uint s pfx nm)
          (store (opt_storage d) (ULong_val (fst (strtoul s))) (mark_found d st)))"

subsection \<open>The words a call retains\<close>

text \<open>
  An option word is a dash followed by at least one more character.  A character of a
  cluster asks for a value when it is not a built-in character and the table resolves it
  to an option that takes a value; a long option word asks for one when the table resolves
  its candidate name to such an option and the word has no inline value.
\<close>

definition option_word :: "string \<Rightarrow> bool" where
  "option_word w = (char_at w 0 = CHR ''-'' \<and> char_at w 1 \<noteq> CHR 0x00)"

definition value_char :: "dooshki_opt list \<Rightarrow> char \<Rightarrow> bool" where
  "value_char tbl c =
     (\<not> builtin_char c
      \<and> (case first_short_match tbl c of None \<Rightarrow> False | Some d \<Rightarrow> takes_value d))"

definition long_values :: "dooshki_opt list \<Rightarrow> string \<Rightarrow> nat" where
  "long_values tbl w =
     (if w = ''--help'' \<or> w = ''--version'' then 0
      else case first_long_match tbl (candidate_name w) of
             None \<Rightarrow> 0
           | Some d \<Rightarrow> if takes_value d \<and> inline_value w = None then 1 else 0)"

definition short_values :: "dooshki_opt list \<Rightarrow> string \<Rightarrow> nat" where
  "short_values tbl w = length (filter (value_char tbl) (cluster_chars w))"

definition values_wanted :: "dooshki_opt list \<Rightarrow> string \<Rightarrow> nat" where
  "values_wanted tbl w =
     (if char_at w 1 = CHR ''-'' then long_values tbl w else short_values tbl w)"

text \<open>
  The words that are to be retained, in the terms of the specification, with the end
  marker itself removed: \<open>retained tbl n ws\<close> goes through the words \<open>ws\<close>, \<open>n\<close> being the
  number of values that the options seen so far still ask for.  At the word \<open>--\<close>
  everything after it is retained.  Before that, a word is taken as a value while values
  are asked for; otherwise an option word is consumed and asks for its values, and any
  other word is an operand and is retained.
\<close>

fun retained :: "dooshki_opt list \<Rightarrow> nat \<Rightarrow> string list \<Rightarrow> string list" where
  "retained tbl n [] = []"
| "retained tbl n (w # ws) =
     (if w = ''--'' then ws
      else if 0 < n then retained tbl (n - 1) ws
      else if option_word w then retained tbl (values_wanted tbl w) ws
      else w # retained tbl 0 ws)"

text \<open>
  The words before the first \<open>--\<close>, which are those the scan can come to, and their
  number, which is how many words an option can take as values.
\<close>

definition before_marker :: "string list \<Rightarrow> string list" where
  "before_marker ws = takeWhile (\<lambda>x. x \<noteq> ''--'') ws"

definition avail :: "string list \<Rightarrow> nat" where
  "avail ws = length (before_marker ws)"

subsection \<open>Entries set to NULL\<close>

text \<open>
  \<open>nulls_only av av'\<close>: the vector \<open>av'\<close> is \<open>av\<close> with some entries after the first set to
  \<open>NULL\<close>.  \<open>unmarked ws marks\<close>: the words of \<open>ws\<close> whose entry in \<open>marks\<close> is not \<open>NULL\<close>,
  in their order.
\<close>

definition nulls_only :: "string option list \<Rightarrow> string option list \<Rightarrow> bool" where
  "nulls_only av av' =
     (length av' = length av
      \<and> (\<forall>j < length av. av' ! j = av ! j \<or> (0 < j \<and> av' ! j = None)))"

definition unmarked :: "string list \<Rightarrow> string option list \<Rightarrow> string list" where
  "unmarked ws marks = map fst (filter (\<lambda>(w, x). x \<noteq> None) (zip ws marks))"

text \<open>The state with further entries appended to the vector.\<close>

definition append_argv :: "string option list \<Rightarrow> parse_state \<Rightarrow> parse_state" where
  "append_argv Y st = st\<lparr>argv := argv st @ Y\<rparr>"

text \<open>The state with entries put in front of the vector.\<close>

definition prepend_argv :: "string option list \<Rightarrow> parse_state \<Rightarrow> parse_state" where
  "prepend_argv P st = st\<lparr>argv := P @ argv st\<rparr>"

text \<open>The test of the scanning loop for the end-of-options marker.\<close>

definition is_stopper :: "string \<Rightarrow> bool" where
  "is_stopper t = (char_at t 0 = CHR ''-'' \<and> char_at t 1 = CHR ''-'' \<and> char_at t 2 = CHR 0x00)"

subsection \<open>Storage that the options of a table leave alone\<close>

text \<open>
  A descriptor leaves the flag at address \<open>a\<close> alone when its destination is another
  object or, for the callback types, when its callback does not change a flag that is set.
\<close>

definition leaves_flag :: "addr \<Rightarrow> dooshki_opt \<Rightarrow> bool" where
  "leaves_flag a d =
     (if opt_type d = DOOSHKI_OPT_CB \<or> opt_type d = DOOSHKI_OPT_CB_NOARG
      then (\<forall>arg p n m. m a = Some (Char_val 1) \<longrightarrow>
              snd (callback d arg (opt_storage d) p n (callback_data d) m) a = Some (Char_val 1))
      else opt_storage d \<noteq> a)"

subsection \<open>A small option table and context, after the demo program\<close>

definition no_callback :: callback_fn where
  "no_callback argument_text storage opt_prefix opt_name data m = (True, m)"

text \<open>A \<open>strtod\<close> for command lines without floating point options: no conversion.\<close>

definition strtod_none :: strtod_fn where
  "strtod_none s = (Dbl_finite 0 0, 0, False)"

definition cli_options :: "dooshki_opt list" where
  "cli_options =
     [\<lparr>short_name = Some ''a'', long_name = Some ''automatic'', argument_template = None,
       opt_type = DOOSHKI_OPT_BOOL, opt_storage = 1, opt_found = Some 2,
       description = None, callback = no_callback, callback_data = 0\<rparr>,
      \<lparr>short_name = Some ''m'', long_name = None, argument_template = None,
       opt_type = DOOSHKI_OPT_NEGBOOL, opt_storage = 1, opt_found = Some 3,
       description = None, callback = no_callback, callback_data = 0\<rparr>,
      \<lparr>short_name = Some ''l'', long_name = Some ''label'', argument_template = Some ''NAME'',
       opt_type = DOOSHKI_OPT_STR, opt_storage = 4, opt_found = None,
       description = None, callback = no_callback, callback_data = 0\<rparr>,
      \<lparr>short_name = Some ''c'', long_name = Some ''count'', argument_template = Some ''N'',
       opt_type = DOOSHKI_OPT_UINT, opt_storage = 5, opt_found = Some 6,
       description = None, callback = no_callback, callback_data = 0\<rparr>]"

definition cli_args_context :: dooshki_args where
  "cli_args_context =
     \<lparr>program_name = ''demo'', version = ''0.1'', usage = ''[OPTIONS]'', summary = ''demo'',
      prog_description = ''demo'', opt_desc = cli_options\<rparr>"

section \<open>Basic facts about the string routines\<close>

lemma strcmp_eq: "strcmp a b = 0 \<longleftrightarrow> a = b"
  by (induction a b rule: strcmp.induct) auto

lemma strncmp_eq: "strncmp a b n = 0 \<longleftrightarrow> take n a = take n b"
  by (induction a b n rule: strncmp.induct) auto

lemma char_at_Nil [simp]: "char_at [] i = CHR 0x00"
  by (simp add: char_at_def)

lemma char_at_0 [simp]: "char_at (c # s) 0 = c"
  by (simp add: char_at_def)

lemma char_at_Suc [simp]: "char_at (c # s) (Suc i) = char_at s i"
  by (simp add: char_at_def)

lemma char_at_0_c_string: "c_string s \<Longrightarrow> s \<noteq> [] \<Longrightarrow> char_at s 0 \<noteq> CHR 0x00"
  by (cases s) (auto simp: c_string_def)

lemma strtoul_Nil: "strtoul [] = (0, 0, False)"
  by (simp add: strtoul_def subject_sequence_def)

lemma strtoul_no_digits:
  "fst (snd (subject_sequence s)) = [] \<Longrightarrow> strtoul s = (0, 0, False)"
  by (auto simp: strtoul_def subject_sequence_def Let_def split: if_splits)

lemma short_chars_loop_dash [simp]:
  "short_chars_loop strtod args_ctxt argc i ''-'' (Suc 0) st = st"
  by (subst short_chars_loop.simps) (simp add: char_at_def)

lemma find_Some_holds: "find P xs = Some x \<Longrightarrow> P x"
  by (induction xs) (auto split: if_splits)

section \<open>What each routine leaves unchanged\<close>

lemma store_fields [simp]:
  "argv (store a v st) = argv st"
  "mem (store a v st) = (mem st)(a \<mapsto> v)"
  "show_help (store a v st) = show_help st"
  "show_version (store a v st) = show_version st"
  "errors_found (store a v st) = errors_found st"
  "err_out (store a v st) = err_out st"
  by (simp_all add: store_def)

lemma print_error_fields [simp]:
  "argv (print_error e st) = argv st"
  "mem (print_error e st) = mem st"
  "show_help (print_error e st) = show_help st"
  "show_version (print_error e st) = show_version st"
  "errors_found (print_error e st) = errors_found st"
  "err_out (print_error e st) = err_out st @ [e]"
  by (simp_all add: print_error_def)

lemma set_errors_found_fields [simp]:
  "argv (set_errors_found st) = argv st"
  "mem (set_errors_found st) = mem st"
  "show_help (set_errors_found st) = show_help st"
  "show_version (set_errors_found st) = show_version st"
  "errors_found (set_errors_found st) = True"
  "err_out (set_errors_found st) = err_out st"
  by (simp_all add: set_errors_found_def)

lemma mark_found_fields [simp]:
  "argv (mark_found d st) = argv st"
  "show_help (mark_found d st) = show_help st"
  "show_version (mark_found d st) = show_version st"
  "errors_found (mark_found d st) = errors_found st"
  "err_out (mark_found d st) = err_out st"
  by (simp_all add: mark_found_def split: option.splits)

lemma run_callback_fields [simp]:
  "argv (snd (run_callback d arg p n st)) = argv st"
  "show_help (snd (run_callback d arg p n st)) = show_help st"
  "show_version (snd (run_callback d arg p n st)) = show_version st"
  "errors_found (snd (run_callback d arg p n st)) = errors_found st"
  "err_out (snd (run_callback d arg p n st)) = err_out st"
  by (simp_all add: run_callback_def split: prod.splits)

lemma process_str_arg_fields [simp]:
  "argv (snd (process_str_arg d a st)) = argv st"
  "show_help (snd (process_str_arg d a st)) = show_help st"
  "show_version (snd (process_str_arg d a st)) = show_version st"
  "errors_found (snd (process_str_arg d a st)) = errors_found st"
  by (simp_all add: process_str_arg_def)

lemma process_uint_arg_fields [simp]:
  "argv (snd (process_uint_arg d p n a st)) = argv st"
  "show_help (snd (process_uint_arg d p n a st)) = show_help st"
  "show_version (snd (process_uint_arg d p n a st)) = show_version st"
  "errors_found (snd (process_uint_arg d p n a st)) = errors_found st"
  by (simp_all add: process_uint_arg_def Let_def split_beta)

lemma process_int_arg_fields [simp]:
  "argv (snd (process_int_arg d p n a st)) = argv st"
  "show_help (snd (process_int_arg d p n a st)) = show_help st"
  "show_version (snd (process_int_arg d p n a st)) = show_version st"
  "errors_found (snd (process_int_arg d p n a st)) = errors_found st"
  by (simp_all add: process_int_arg_def Let_def split_beta)

lemma process_float_arg_fields [simp]:
  "argv (snd (process_float_arg strtod d p n a st)) = argv st"
  "show_help (snd (process_float_arg strtod d p n a st)) = show_help st"
  "show_version (snd (process_float_arg strtod d p n a st)) = show_version st"
  "errors_found (snd (process_float_arg strtod d p n a st)) = errors_found st"
  by (simp_all add: process_float_arg_def Let_def split_beta)

lemma process_opt_arg_fields [simp]:
  "argv (snd (process_opt_arg strtod d l a st)) = argv st"
  "show_help (snd (process_opt_arg strtod d l a st)) = show_help st"
  "show_version (snd (process_opt_arg strtod d l a st)) = show_version st"
  "errors_found (snd (process_opt_arg strtod d l a st)) = errors_found st"
  by (simp_all add: process_opt_arg_def Let_def split: dooshki_opt_type.splits)

lemma convert_arg_fields [simp]:
  "argv (convert_arg strtod d l a st) = argv st"
  "show_help (convert_arg strtod d l a st) = show_help st"
  "show_version (convert_arg strtod d l a st) = show_version st"
  by (simp_all add: convert_arg_def split_beta)

lemma unexpected_argument_fields [simp]:
  "argv (unexpected_argument d a st) = argv st"
  "mem (unexpected_argument d a st) = mem st"
  "show_help (unexpected_argument d a st) = show_help st"
  "show_version (unexpected_argument d a st) = show_version st"
  by (simp_all add: unexpected_argument_def)

lemma unrecognized_fields [simp]:
  "argv (unrecognized_long s st) = argv st"
  "mem (unrecognized_long s st) = mem st"
  "show_help (unrecognized_long s st) = show_help st"
  "show_version (unrecognized_long s st) = show_version st"
  "argv (unrecognized_short c st) = argv st"
  "mem (unrecognized_short c st) = mem st"
  "show_help (unrecognized_short c st) = show_help st"
  "show_version (unrecognized_short c st) = show_version st"
  by (simp_all add: unrecognized_long_def unrecognized_short_def)

lemma long_opt_found_flags [simp]:
  "show_help (long_opt_found strtod argc i d argument st) = show_help st"
  "show_version (long_opt_found strtod argc i d argument st) = show_version st"
  by (simp_all add: long_opt_found_def Let_def split_beta split: option.splits)

lemma long_opt_loop_flags [simp]:
  "show_help (long_opt_loop strtod argc i s n argument tbl st) = show_help st"
  "show_version (long_opt_loop strtod argc i s n argument tbl st) = show_version st"
  by (induction tbl) (simp_all split: option.splits)

lemma short_opt_found_flags [simp]:
  "show_help (short_opt_found strtod argc i d st) = show_help st"
  "show_version (short_opt_found strtod argc i d st) = show_version st"
  by (simp_all add: short_opt_found_def Let_def split_beta split: option.splits)

lemma short_opt_loop_flags [simp]:
  "show_help (short_opt_loop strtod argc i c tbl st) = show_help st"
  "show_version (short_opt_loop strtod argc i c tbl st) = show_version st"
  by (induction tbl) (simp_all split: option.splits)

section \<open>Unsigned integer arguments\<close>

text \<open>
  Claim C9.  The claim says that an empty value text yields an invalid-number error.  The
  code tests only \<open>*test_ptr != '\0'\<close> and \<open>argument[0] == '-'\<close>; for the empty text
  \<open>strtoul\<close> converts nothing, \<open>test_ptr\<close> points at the terminator, and the text is
  accepted: the destination is set to 0 and no message is printed.
\<close>

theorem uint_empty_text_accepted:
  "process_uint_arg d p n [] st = (True, store (opt_storage d) (ULong_val 0) st)"
  by (simp add: process_uint_arg_def strtoul_Nil)

theorem uint_empty_text_accepted_witness:
  "process_uint_arg (cli_options ! 3) ''--'' ''count'' []
     (initial_state [Some ''demo'', Some ''--count=''] [5 \<mapsto> ULong_val 7])
   = (True, initial_state [Some ''demo'', Some ''--count=''] [5 \<mapsto> ULong_val 0])"
  using uint_empty_text_accepted [where d = "cli_options ! 3" and p = "''--''" and n = "''count''"
      and st = "initial_state [Some ''demo'', Some ''--count=''] [5 \<mapsto> ULong_val 7]"]
  by (simp add: store_def initial_state_def cli_options_def)

text \<open>The other parts of the claim hold.\<close>

lemma uint_leading_minus:
  "process_uint_arg d p n (CHR ''-'' # s) st
     = (False, print_error (Invalid_uint (CHR ''-'' # s) p n)
                 (store (opt_storage d) (ULong_val (fst (strtoul (CHR ''-'' # s)))) st))"
  by (simp add: process_uint_arg_def split_beta Let_def)

lemma subject_sequence_digits:
  assumes "s \<noteq> []" and "\<forall>c \<in> set s. isdigit c"
  shows "subject_sequence s = (False, s, length s)"
proof -
  obtain c r where s: "s = c # r" using assms(1) by (cases s) auto
  have c: "isdigit c" using assms(2) s by simp
  then have ns: "\<not> isspace c" and nm: "c \<noteq> CHR ''-''" and np: "c \<noteq> CHR ''+''"
    by (auto simp: isdigit_def isspace_def)
  have t: "takeWhile isdigit s = s" and dr: "dropWhile isdigit s = []"
    using assms(2) by simp_all
  show ?thesis
    using ns nm np t dr s by (simp add: subject_sequence_def Let_def)
qed

lemma uint_too_large:
  assumes "s \<noteq> []" and "\<forall>c \<in> set s. isdigit c" and "ULONG_MAX < dec_value 0 s"
  shows "process_uint_arg d p n s st
     = (False, print_error (Too_large s p n) (store (opt_storage d) (ULong_val ULONG_MAX) st))"
proof -
  have "isdigit (hd s)" using assms(1,2) by (cases s) auto
  then have "hd s \<noteq> CHR ''-''" by (auto simp: isdigit_def)
  then have m: "char_at s 0 \<noteq> CHR ''-''" using assms(1) by (cases s) auto
  show ?thesis
    using assms m
    by (simp add: process_uint_arg_def strtoul_def subject_sequence_digits char_at_def)
qed

lemma uint_trailing_characters:
  assumes "s \<noteq> []" and "\<forall>c \<in> set s. isdigit c" and "\<not> isdigit c" and "c \<noteq> CHR 0x00"
  shows "fst (process_uint_arg d p n (s @ c # r) st) = False
       \<and> err_out (snd (process_uint_arg d p n (s @ c # r) st))
           = err_out st @ [Invalid_uint (s @ c # r) p n]"
proof -
  obtain a r' where s: "s = a # r'" using assms(1) by (cases s) auto
  have a: "isdigit a" using assms(2) s by simp
  then have ns: "\<not> isspace a" and nm: "a \<noteq> CHR ''-''" and np: "a \<noteq> CHR ''+''"
    by (auto simp: isdigit_def isspace_def)
  have t: "takeWhile isdigit (s @ c # r) = s" and dr: "dropWhile isdigit (s @ c # r) = c # r"
    using assms(2,3) by simp_all
  have ss: "subject_sequence (s @ c # r) = (False, s, length s)"
    using ns nm np t dr s by (simp add: subject_sequence_def Let_def)
  show ?thesis
    using assms(1,4) ss
    by (simp add: process_uint_arg_def strtoul_def char_at_def nth_append split_beta Let_def)
qed

lemma uint_examples:
  "res_err (dooshki_args_parse strtod_none cli_args_context 2
      [Some ''demo'', Some ''--count=-5''] Map.empty) = [Invalid_uint ''-5'' ''--'' ''count'']"
  "res_err (dooshki_args_parse strtod_none cli_args_context 2
      [Some ''demo'', Some ''--count=12x''] Map.empty) = [Invalid_uint ''12x'' ''--'' ''count'']"
  "res_err (dooshki_args_parse strtod_none cli_args_context 2
      [Some ''demo'', Some ''--count=99999999999999999999''] Map.empty)
     = [Too_large ''99999999999999999999'' ''--'' ''count'']"
  by code_simp+

lemma uint_empty_text_example:
  "(let r = dooshki_args_parse strtod_none cli_args_context 2
              [Some ''demo'', Some ''--count=''] [5 \<mapsto> ULong_val 7]
    in ret r = DOOSHKI_ARGS_PARSE_OK \<and> res_err r = [] \<and> res_mem r 5 = Some (ULong_val 0))"
  by code_simp

section \<open>A single dash\<close>

text \<open>
  Claim C8.  The claim says that a word consisting of a single dash is an operand and
  stays in the vector.  The header describes short options as letters after a dash and
  says that the processed arguments are removed; a single dash has no letter and nothing
  is processed for it.  The scanning loop however tests only the first character, hands
  the word to \<open>process_short_opts\<close> as an empty cluster, and then sets its entry to
  \<open>NULL\<close>: no message is printed, no flag and no storage changes, scanning goes on, and
  the word is removed from the vector.
\<close>

theorem single_dash_step:
  assumes "argv st ! i = Some ''-''"
  shows "scan_step strtod args_ctxt argc i st = (False, st\<lparr>argv := (argv st)[i := None]\<rparr>)"
  using assms by (simp add: scan_step_def process_short_opts_def)

theorem single_dash_step_witness:
  "argv (initial_state [Some ''demo'', Some ''-'', Some ''x''] Map.empty) ! 1 = Some ''-''
   \<and> scan_step strtod_none cli_args_context 3 1
        (initial_state [Some ''demo'', Some ''-'', Some ''x''] Map.empty)
      = (False, initial_state [Some ''demo'', None, Some ''x''] Map.empty)"
proof -
  have h: "argv (initial_state [Some ''demo'', Some ''-'', Some ''x''] Map.empty) ! 1 = Some ''-''"
    by (simp add: initial_state_def)
  show ?thesis
    using h single_dash_step [OF h, where strtod = strtod_none
        and args_ctxt = cli_args_context and argc = 3]
    by (simp add: initial_state_def)
qed

text \<open>The command line \<open>demo - x\<close>: the call succeeds and leaves \<open>demo x\<close>.\<close>

lemma single_dash_example:
  "(let r = dooshki_args_parse strtod_none cli_args_context 3
              [Some ''demo'', Some ''-'', Some ''x''] Map.empty
    in ret r = DOOSHKI_ARGS_PARSE_OK \<and> res_err r = [] \<and> res_argc r = 2
       \<and> words_of r = [Some ''demo'', Some ''x''])"
  by code_simp

section \<open>The help and version flags\<close>

lemma flags_step_refl [simp]: "flags_step st st"
  by (simp add: flags_step_def)

lemma flags_step_trans: "flags_step a b \<Longrightarrow> flags_step b c \<Longrightarrow> flags_step a c"
  by (auto simp: flags_step_def)

lemma flags_step_same:
  "show_help st' = show_help st \<Longrightarrow> show_version st' = show_version st \<Longrightarrow> flags_step st st'"
  by (simp add: flags_step_def)

lemma flags_step_set [simp]:
  "flags_step st (set_show_help st)" "flags_step st (set_show_version st)"
  by (auto simp: flags_step_def set_show_help_def set_show_version_def)

lemma process_long_opt_flags: "flags_step st (process_long_opt strtod ctxt argc i st)"
  by (simp add: process_long_opt_def Let_def flags_step_same)

lemma short_chars_loop_flags:
  "flags_step st (short_chars_loop strtod ctxt argc i s k st)"
proof (induction strtod ctxt argc i s k st rule: short_chars_loop.induct)
  case (1 strtod ctxt argc i s k st)
  show ?case
  proof (cases "char_at s k \<noteq> CHR 0x00")
    case True
    let ?st1 = "(if char_at s k = CHR ''h'' then set_show_help st
           else if char_at s k = CHR ''V'' then set_show_version st
           else short_opt_loop strtod argc i (char_at s k) (opt_desc ctxt) st)"
    have a: "flags_step st ?st1" by (simp add: flags_step_same)
    have b: "flags_step ?st1 (short_chars_loop strtod ctxt argc i s (k + 1) ?st1)"
      using 1 True by simp
    show ?thesis
      using flags_step_trans[OF a b] True by (subst short_chars_loop.simps) simp
  next
    case False
    then show ?thesis by (subst short_chars_loop.simps) simp
  qed
qed

lemma flags_step_argv [simp]: "flags_step st (st'\<lparr>argv := av\<rparr>) = flags_step st st'"
  by (simp add: flags_step_def)

lemma scan_step_flags:
  "scan_step strtod ctxt argc i st = (stop', st') \<Longrightarrow> flags_step st st'"
  by (auto simp: scan_step_def process_long_opt_flags short_chars_loop_flags
      process_short_opts_def split: option.splits if_splits)

lemma scan_visits_flags:
  "scan_visits strtod ctxt argc c c' \<Longrightarrow> flags_step (snd (snd c)) (snd (snd c'))"
proof (induction rule: scan_visits.induct)
  case (visits_here c)
  show ?case by simp
next
  case (visits_step c i st stop' st')
  then show ?case using scan_step_flags flags_step_trans by fastforce
qed

lemma scan_visits_trans:
  "scan_visits strtod ctxt argc c' c'' \<Longrightarrow> scan_visits strtod ctxt argc c c'
     \<Longrightarrow> scan_visits strtod ctxt argc c c''"
  by (induction rule: scan_visits.induct) (auto intro: scan_visits.intros)

lemma scan_visits_loop:
  "\<exists>i' stop'. scan_visits strtod ctxt argc (i, stop, st)
       (i', stop', scan_loop strtod ctxt argc i stop st)"
proof (induction strtod ctxt argc i stop st rule: scan_loop.induct)
  case (1 strtod ctxt argc i stop st)
  show ?case
  proof (cases "i < argc \<and> \<not> stop")
    case True
    obtain s1 st1 where st: "scan_step strtod ctxt argc i st = (s1, st1)"
      by (cases "scan_step strtod ctxt argc i st")
    from 1[OF True st[symmetric]] obtain i' stop' where
      v: "scan_visits strtod ctxt argc (i + 1, s1, st1)
            (i', stop', scan_loop strtod ctxt argc (i + 1) s1 st1)" by blast
    have w: "scan_visits strtod ctxt argc (i, stop, st) (i + 1, s1, st1)"
      using True st visits_step[OF visits_here, of i argc strtod ctxt st s1 st1] by simp
    have e: "scan_loop strtod ctxt argc i stop st = scan_loop strtod ctxt argc (i + 1) s1 st1"
      using True st by (subst scan_loop.simps) simp
    show ?thesis
      using scan_visits_trans[OF v w] e by auto
  next
    case False
    then show ?thesis
      by (subst scan_loop.simps) (auto intro: visits_here)
  qed
qed

lemma initial_flags [simp]:
  "show_help (initial_state av m) = False" "show_version (initial_state av m) = False"
  by (simp_all add: initial_state_def)

lemma scan_visits_same_result:
  "scan_visits strtod ctxt argc c c' \<Longrightarrow>
   scan_loop strtod ctxt argc (fst c) (fst (snd c)) (snd (snd c))
     = scan_loop strtod ctxt argc (fst c') (fst (snd c')) (snd (snd c'))"
proof (induction rule: scan_visits.induct)
  case (visits_here c)
  show ?case by simp
next
  case (visits_step c i st stop' st')
  have "scan_loop strtod ctxt argc i False st = scan_loop strtod ctxt argc (Suc i) stop' st'"
    using visits_step(2,3) by (subst scan_loop.simps) simp
  then show ?case using visits_step(4) by simp
qed

lemma short_chars_loop_trigger:
  assumes "\<not> show_help st" and "\<not> show_version st"
  shows "show_help (short_chars_loop strtod ctxt argc i s k st)
           = (find builtin_char (takeWhile (\<lambda>c. c \<noteq> CHR 0x00) (drop k s)) = Some CHR ''h'')
       \<and> show_version (short_chars_loop strtod ctxt argc i s k st)
           = (find builtin_char (takeWhile (\<lambda>c. c \<noteq> CHR 0x00) (drop k s)) = Some CHR ''V'')"
  using assms
proof (induction strtod ctxt argc i s k st rule: short_chars_loop.induct)
  case (1 strtod ctxt argc i s k st)
  show ?case
  proof (cases "char_at s k \<noteq> CHR 0x00")
    case True
    then have kl: "k < length s" and sk: "s ! k \<noteq> CHR 0x00"
      by (auto simp: char_at_def split: if_splits)
    have dr: "drop k s = s ! k # drop (k + 1) s"
      using kl by (simp add: Cons_nth_drop_Suc)
    have ck: "char_at s k = s ! k" using kl by (simp add: char_at_def)
    let ?st1 = "(if char_at s k = CHR ''h'' then set_show_help st
           else if char_at s k = CHR ''V'' then set_show_version st
           else short_opt_loop strtod argc i (char_at s k) (opt_desc ctxt) st)"
    have unf: "short_chars_loop strtod ctxt argc i s k st
                 = short_chars_loop strtod ctxt argc i s (k + 1) ?st1"
      using True by (subst short_chars_loop.simps) simp
    have fl: "flags_step ?st1 (short_chars_loop strtod ctxt argc i s (k + 1) ?st1)"
      by (rule short_chars_loop_flags)
    show ?thesis
    proof (cases "builtin_char (s ! k)")
      case True
      then show ?thesis
        using fl 1(2,3) sk unfolding unf dr ck
        by (auto simp: builtin_char_def flags_step_def set_show_help_def set_show_version_def)
    next
      case False
      then have n: "\<not> show_help ?st1" "\<not> show_version ?st1"
        using 1(2,3) ck by (auto simp: builtin_char_def)
      show ?thesis
        using 1(1)[OF True n] False sk unfolding unf dr by simp
    qed
  next
    case False
    then have "takeWhile (\<lambda>c. c \<noteq> CHR 0x00) (drop k s) = []"
      by (cases "k < length s") (auto simp: char_at_def Cons_nth_drop_Suc[symmetric])
    then show ?thesis
      using False 1(2,3) by (subst (1 2) short_chars_loop.simps) simp
  qed
qed


lemma scan_step_trigger:
  assumes "argv st ! i = Some w" and "\<not> show_help st" and "\<not> show_version st"
  shows "show_help (snd (scan_step strtod ctxt argc i st)) = (trigger_of w = Some Help_trigger)
       \<and> show_version (snd (scan_step strtod ctxt argc i st)) = (trigger_of w = Some Version_trigger)"
proof (cases "char_at w 0 = CHR ''-''")
  case False
  then show ?thesis using assms by (simp add: scan_step_def trigger_of_def)
next
  case dash: True
  show ?thesis
  proof (cases "char_at w 1 = CHR ''-''")
    case True
    show ?thesis
    proof (cases "char_at w 2 = CHR 0x00")
      case True
      then have "w \<noteq> ''--help'' \<and> w \<noteq> ''--version''" by (auto simp: char_at_def)
      then show ?thesis
        using assms dash \<open>char_at w 1 = CHR ''-''\<close> True
        by (simp add: scan_step_def trigger_of_def)
    next
      case False
      then show ?thesis
        using assms dash \<open>char_at w 1 = CHR ''-''\<close>
        by (simp add: scan_step_def trigger_of_def process_long_opt_def strcmp_eq Let_def
            set_show_help_def set_show_version_def)
    qed
  next
    case False
    note s = short_chars_loop_trigger[OF assms(2,3), of strtod ctxt argc i w 1]
    have a: "(find builtin_char (cluster_chars w) = Some CHR ''h'')
               = (trigger_of w = Some Help_trigger)"
      using dash False
      by (auto simp: trigger_of_def builtin_char_def split: option.splits dest: find_Some_holds)
    have b: "(find builtin_char (cluster_chars w) = Some CHR ''V'')
               = (trigger_of w = Some Version_trigger)"
      using dash False
      by (auto simp: trigger_of_def builtin_char_def split: option.splits dest: find_Some_holds)
    show ?thesis
      using assms(1) dash False s a b
      by (simp add: scan_step_def process_short_opts_def cluster_chars_def)
  qed
qed

lemma scan_loop_flags: "flags_step st (scan_loop strtod ctxt argc i stop st)"
proof -
  obtain i' stop' where
    "scan_visits strtod ctxt argc (i, stop, st) (i', stop', scan_loop strtod ctxt argc i stop st)"
    using scan_visits_loop by blast
  from scan_visits_flags[OF this] show ?thesis by simp
qed

lemma first_trigger_outcome:
  assumes reach: "scan_visits strtod ctxt argc (1, False, initial_state av m) (i, False, st)"
    and i: "i < argc" and w: "argv st ! i = Some w"
    and nf: "\<not> show_help st" "\<not> show_version st"
  shows "trigger_of w = Some Help_trigger
           \<Longrightarrow> ret (dooshki_args_parse strtod ctxt argc av m) = DOOSHKI_ARGS_HELP_SHOWN"
    and "trigger_of w = Some Version_trigger
           \<Longrightarrow> ret (dooshki_args_parse strtod ctxt argc av m) = DOOSHKI_ARGS_VER_SHOWN"
proof -
  obtain s1 st1 where st: "scan_step strtod ctxt argc i st = (s1, st1)"
    by (cases "scan_step strtod ctxt argc i st")
  let ?fin = "scan_loop strtod ctxt argc 1 False (initial_state av m)"
  have "?fin = scan_loop strtod ctxt argc i False st"
    using scan_visits_same_result[OF reach] by simp
  also have "\<dots> = scan_loop strtod ctxt argc (i + 1) s1 st1"
    using i st by (subst scan_loop.simps) simp
  finally have fin: "?fin = scan_loop strtod ctxt argc (i + 1) s1 st1" .
  have fl: "flags_step st1 ?fin"
    unfolding fin by (rule scan_loop_flags)
  note t = scan_step_trigger[OF w nf, of strtod ctxt argc]
  have r: "ret (dooshki_args_parse strtod ctxt argc av m) = outcome ?fin"
    by (simp add: dooshki_args_parse_def Let_def split_beta)
  show "trigger_of w = Some Help_trigger
           \<Longrightarrow> ret (dooshki_args_parse strtod ctxt argc av m) = DOOSHKI_ARGS_HELP_SHOWN"
    using t fl st unfolding r by (simp add: outcome_def flags_step_def)
  show "trigger_of w = Some Version_trigger
           \<Longrightarrow> ret (dooshki_args_parse strtod ctxt argc av m) = DOOSHKI_ARGS_VER_SHOWN"
    using t fl st unfolding r by (auto simp: outcome_def flags_step_def)
qed

text \<open>
  Claim C7.  In every configuration the scanning loop of a call goes through, \<open>show_help\<close>
  and \<open>show_version\<close> are not both set; and once one of them is set, it is still set, and
  the other one still clear, in every later configuration of the call, so later
  occurrences of the other trigger are ignored.  While neither flag is set, the iteration
  for a word sets \<open>show_help\<close> exactly when the word is a help trigger and \<open>show_version\<close>
  exactly when it is a version trigger; the call then returns the outcome of that first
  trigger.
\<close>

theorem help_version_exclusive:
  assumes "scan_visits strtod args_ctxt argc (1, False, initial_state av m) (i, stop, st)"
    and "scan_visits strtod args_ctxt argc (i, stop, st) (i', stop', st')"
  shows "\<not> (show_help st \<and> show_version st)
       \<and> (show_help st \<longrightarrow> show_help st' \<and> \<not> show_version st')
       \<and> (show_version st \<longrightarrow> show_version st' \<and> \<not> show_help st')
       \<and> (\<not> stop \<and> i < argc \<and> argv st ! i = Some w \<and> \<not> show_help st \<and> \<not> show_version st
            \<longrightarrow> show_help (snd (scan_step strtod args_ctxt argc i st))
                  = (trigger_of w = Some Help_trigger)
              \<and> show_version (snd (scan_step strtod args_ctxt argc i st))
                  = (trigger_of w = Some Version_trigger)
              \<and> (trigger_of w = Some Help_trigger
                   \<longrightarrow> ret (dooshki_args_parse strtod args_ctxt argc av m)
                         = DOOSHKI_ARGS_HELP_SHOWN)
              \<and> (trigger_of w = Some Version_trigger
                   \<longrightarrow> ret (dooshki_args_parse strtod args_ctxt argc av m)
                         = DOOSHKI_ARGS_VER_SHOWN))"
proof -
  have a: "flags_step (initial_state av m) st"
    using scan_visits_flags[OF assms(1)] by simp
  have b: "flags_step st st'"
    using scan_visits_flags[OF assms(2)] by simp
  have c: "\<not> (show_help st \<and> show_version st)"
    using a by (simp add: flags_step_def)
  have d: "(show_help st \<longrightarrow> show_help st' \<and> \<not> show_version st')
       \<and> (show_version st \<longrightarrow> show_version st' \<and> \<not> show_help st')"
    using b c by (auto simp: flags_step_def)
  have e: "\<not> stop \<and> i < argc \<and> argv st ! i = Some w \<and> \<not> show_help st \<and> \<not> show_version st
            \<longrightarrow> show_help (snd (scan_step strtod args_ctxt argc i st))
                  = (trigger_of w = Some Help_trigger)
              \<and> show_version (snd (scan_step strtod args_ctxt argc i st))
                  = (trigger_of w = Some Version_trigger)
              \<and> (trigger_of w = Some Help_trigger
                   \<longrightarrow> ret (dooshki_args_parse strtod args_ctxt argc av m)
                         = DOOSHKI_ARGS_HELP_SHOWN)
              \<and> (trigger_of w = Some Version_trigger
                   \<longrightarrow> ret (dooshki_args_parse strtod args_ctxt argc av m)
                         = DOOSHKI_ARGS_VER_SHOWN)"
  proof (intro impI, elim conjE)
    assume h: "\<not> stop" "i < argc" "argv st ! i = Some w" "\<not> show_help st" "\<not> show_version st"
    have r: "scan_visits strtod args_ctxt argc (1, False, initial_state av m) (i, False, st)"
      using assms(1) h(1) by simp
    show "show_help (snd (scan_step strtod args_ctxt argc i st))
                  = (trigger_of w = Some Help_trigger)
              \<and> show_version (snd (scan_step strtod args_ctxt argc i st))
                  = (trigger_of w = Some Version_trigger)
              \<and> (trigger_of w = Some Help_trigger
                   \<longrightarrow> ret (dooshki_args_parse strtod args_ctxt argc av m)
                         = DOOSHKI_ARGS_HELP_SHOWN)
              \<and> (trigger_of w = Some Version_trigger
                   \<longrightarrow> ret (dooshki_args_parse strtod args_ctxt argc av m)
                         = DOOSHKI_ARGS_VER_SHOWN)"
      using scan_step_trigger[OF h(3,4,5), of strtod args_ctxt argc]
        first_trigger_outcome[OF r h(2,3,4,5)]
      by blast
  qed
  show ?thesis using c d e by blast
qed

theorem help_version_exclusive_witness:
  "scan_visits strtod_none cli_args_context 3
     (1, False, initial_state [Some ''demo'', Some ''-V'', Some ''--help''] Map.empty)
     (1, False, initial_state [Some ''demo'', Some ''-V'', Some ''--help''] Map.empty)
   \<and> scan_visits strtod_none cli_args_context 3
     (1, False, initial_state [Some ''demo'', Some ''-V'', Some ''--help''] Map.empty)
     (2, False, (initial_state [Some ''demo'', None, Some ''--help''] Map.empty)\<lparr>show_version := True\<rparr>)
   \<and> scan_visits strtod_none cli_args_context 3
     (2, False, (initial_state [Some ''demo'', None, Some ''--help''] Map.empty)\<lparr>show_version := True\<rparr>)
     (3, False, (initial_state [Some ''demo'', None, None] Map.empty)\<lparr>show_version := True\<rparr>)
   \<and> trigger_of ''-V'' = Some Version_trigger
   \<and> show_version (snd (scan_step strtod_none cli_args_context 3 1
        (initial_state [Some ''demo'', Some ''-V'', Some ''--help''] Map.empty)))
   \<and> show_version ((initial_state [Some ''demo'', None, None] Map.empty)\<lparr>show_version := True\<rparr>)
   \<and> \<not> show_help ((initial_state [Some ''demo'', None, None] Map.empty)\<lparr>show_version := True\<rparr>)
   \<and> ret (dooshki_args_parse strtod_none cli_args_context 3
            [Some ''demo'', Some ''-V'', Some ''--help''] Map.empty) = DOOSHKI_ARGS_VER_SHOWN"
proof -
  let ?s0 = "initial_state [Some ''demo'', Some ''-V'', Some ''--help''] Map.empty"
  let ?s1 = "(initial_state [Some ''demo'', None, Some ''--help''] Map.empty)\<lparr>show_version := True\<rparr>"
  let ?s2 = "(initial_state [Some ''demo'', None, None] Map.empty)\<lparr>show_version := True\<rparr>"
  have e1: "scan_step strtod_none cli_args_context 3 1 ?s0 = (False, ?s1)"
    by (simp add: scan_step_def process_short_opts_def short_chars_loop.simps
        initial_state_def set_show_version_def)
  have e2: "scan_step strtod_none cli_args_context 3 2 ?s1 = (False, ?s2)"
    by (simp add: scan_step_def process_long_opt_def initial_state_def set_show_help_def
        char_at_def)
  have h0: "scan_visits strtod_none cli_args_context 3 (1, False, ?s0) (1, False, ?s0)"
    by (rule visits_here)
  have h1: "scan_visits strtod_none cli_args_context 3 (1, False, ?s0) (2, False, ?s1)"
    using visits_step[OF visits_here _ e1] by (simp add: numeral_3_eq_3 numeral_2_eq_2)
  have h2: "scan_visits strtod_none cli_args_context 3 (2, False, ?s1) (3, False, ?s2)"
    using visits_step[OF visits_here _ e2] by (simp add: numeral_3_eq_3 numeral_2_eq_2)
  have t: "trigger_of ''-V'' = Some Version_trigger"
    by (simp add: trigger_of_def cluster_chars_def builtin_char_def)
  have w: "argv ?s0 ! 1 = Some ''-V''" by (simp add: initial_state_def)
  show ?thesis
    using h0 h1 h2 t w help_version_exclusive[OF h1 h2, where w = "''--help''"]
      help_version_exclusive[OF h0 h1, where w = "''-V''"]
    by simp
qed

text \<open>The state from which the outcome is computed is one of these configurations.\<close>

lemma parse_flags_exclusive:
  "\<not> (show_help (scan_loop strtod args_ctxt argc 1 False (initial_state av m))
      \<and> show_version (scan_loop strtod args_ctxt argc 1 False (initial_state av m)))"
proof -
  obtain i stop where
    "scan_visits strtod args_ctxt argc (1, False, initial_state av m)
       (i, stop, scan_loop strtod args_ctxt argc 1 False (initial_state av m))"
    using scan_visits_loop by blast
  from scan_visits_flags[OF this] show ?thesis
    by (simp add: flags_step_def)
qed

section \<open>Looking up a long option\<close>

lemma name_end_eq: "name_end s i = i + length (takeWhile name_char (drop i s))"
proof (induction s i rule: name_end.induct)
  case (1 s i)
  show ?case
  proof (cases "char_at s i \<noteq> CHR 0x00 \<and> char_at s i \<noteq> CHR ''=''")
    case True
    then have lt: "i < length s" by (auto simp: char_at_def split: if_splits)
    with True have nc: "name_char (s ! i)" by (simp add: char_at_def name_char_def)
    have "drop i s = s ! i # drop (Suc i) s" using lt by (simp add: Cons_nth_drop_Suc)
    then have "length (takeWhile name_char (drop i s))
                 = Suc (length (takeWhile name_char (drop (Suc i) s)))"
      using nc by simp
    then show ?thesis using 1[OF True] True by (subst name_end.simps) simp
  next
    case False
    then have "takeWhile name_char (drop i s) = []"
      by (cases "i < length s")
         (auto simp: char_at_def name_char_def Cons_nth_drop_Suc[symmetric])
    then show ?thesis using False by (subst name_end.simps) auto
  qed
qed

lemma opt_len_eq: "name_end s 2 - 2 = length (candidate_name s)"
  by (simp add: name_end_eq candidate_name_def)

lemma take_candidate: "take (length (candidate_name s)) (drop 2 s) = candidate_name s"
  by (simp add: candidate_name_def takeWhile_eq_take[symmetric])

lemma char_at_drop: "char_at s (i + k) = char_at (drop i s) k"
  by (auto simp: char_at_def)

lemma inline_value_aux:
  "(if char_at xs 0 = CHR ''='' then Some (tl xs) else None)
     = (case xs of [] \<Rightarrow> None | c # rest \<Rightarrow> if c = CHR ''='' then Some rest else None)"
  by (cases xs) auto

lemma inline_value_eq:
  "(if char_at s (name_end s 2) = CHR ''='' then Some (drop (name_end s 2 + 1) s) else None)
     = inline_value s"
proof -
  let ?n = "length (takeWhile name_char (drop 2 s))"
  have d: "dropWhile name_char (drop 2 s) = drop ?n (drop 2 s)"
    by (rule dropWhile_eq_drop)
  have c: "char_at s (name_end s 2) = char_at (dropWhile name_char (drop 2 s)) 0"
    by (simp add: name_end_eq d char_at_def add.commute)
  have r: "drop (name_end s 2 + 1) s = tl (dropWhile name_char (drop 2 s))"
    by (simp add: name_end_eq d drop_Suc tl_drop add.commute)
  show ?thesis
    unfolding c r inline_value_def by (rule inline_value_aux)
qed

lemma strncmp_candidate:
  "strncmp (drop 2 s) ln (length (candidate_name s)) = 0 \<longleftrightarrow>
     take (length (candidate_name s)) ln = candidate_name s"
  by (auto simp add: strncmp_eq take_candidate)

lemma long_opt_loop_find:
  "long_opt_loop strtod argc i s (length (candidate_name s)) argument tbl st =
     (case first_long_match tbl (candidate_name s) of
        None \<Rightarrow> unrecognized_long s st
      | Some d \<Rightarrow> long_opt_found strtod argc i d argument st)"
  by (induction tbl)
     (auto simp: first_long_match_def table_members_def is_terminator_def
        long_name_matches_def strncmp_candidate split: option.splits)

lemma process_long_opt_lookup:
  assumes "argv st ! i = Some s" and "s \<noteq> ''--help''" and "s \<noteq> ''--version''"
  shows "process_long_opt strtod ctxt argc i st =
           (case first_long_match (opt_desc ctxt) (candidate_name s) of
              None \<Rightarrow> unrecognized_long s st
            | Some d \<Rightarrow> long_opt_found strtod argc i d (inline_value s) st)"
  using assms
  by (simp add: process_long_opt_def strcmp_eq Let_def opt_len_eq inline_value_eq
      long_opt_loop_find del: One_nat_def)

text \<open>
  Claim C4.  For a long option word that is not exactly \<open>--help\<close> or \<open>--version\<close>, the
  descriptor that is processed is the first member of the table, in table order and before
  the terminator, that has a long name whose first N characters are the candidate name
  (the text between the two dashes and the first \<open>=\<close> or the end), N being the length of
  the candidate; if there is none the word is reported as unrecognized.  In particular a
  descriptor whose long name begins with the candidate and goes on satisfies the test.
\<close>

theorem long_option_lookup:
  assumes "argv st ! i = Some s" and "s \<noteq> ''--help''" and "s \<noteq> ''--version''"
  shows "process_long_opt strtod args_ctxt argc i st =
           (case first_long_match (opt_desc args_ctxt) (candidate_name s) of
              None \<Rightarrow> unrecognized_long s st
            | Some d \<Rightarrow> long_opt_found strtod argc i d (inline_value s) st)
       \<and> (\<forall>d more. long_name d = Some (candidate_name s @ more)
             \<longrightarrow> long_name_matches (candidate_name s) d)"
  using process_long_opt_lookup[OF assms] by (simp add: long_name_matches_def)

theorem long_option_lookup_witness:
  "argv (initial_state [Some ''demo'', Some ''--lab=x''] Map.empty) ! 1 = Some ''--lab=x''
   \<and> ''--lab=x'' \<noteq> ''--help'' \<and> ''--lab=x'' \<noteq> ''--version''
   \<and> first_long_match (opt_desc cli_args_context) (candidate_name ''--lab=x'')
         = Some (cli_options ! 2)
   \<and> process_long_opt strtod_none cli_args_context 2 1
         (initial_state [Some ''demo'', Some ''--lab=x''] Map.empty)
       = long_opt_found strtod_none 2 1 (cli_options ! 2) (Some ''x'')
           (initial_state [Some ''demo'', Some ''--lab=x''] Map.empty)"
proof -
  have h1: "argv (initial_state [Some ''demo'', Some ''--lab=x''] Map.empty) ! 1 = Some ''--lab=x''"
    by (simp add: initial_state_def)
  have h2: "''--lab=x'' \<noteq> ''--help''" by simp
  have h3: "''--lab=x'' \<noteq> ''--version''" by simp
  have c: "candidate_name ''--lab=x'' = ''lab''"
    by (simp add: candidate_name_def name_char_def)
  have v: "inline_value ''--lab=x'' = Some ''x''"
    by (simp add: inline_value_def name_char_def)
  have f: "first_long_match (opt_desc cli_args_context) ''lab'' = Some (cli_options ! 2)"
    by (simp add: first_long_match_def table_members_def is_terminator_def
        long_name_matches_def cli_args_context_def cli_options_def)
  show ?thesis
    using h1 h2 h3
      long_option_lookup [OF h1 h2 h3, where strtod = strtod_none
        and args_ctxt = cli_args_context and argc = 2]
    by (simp add: c v f)
qed

section \<open>Outcome of a call\<close>

lemma err_rel_refl [simp]: "err_rel q st st"
  by (simp add: err_rel_def)

lemma err_rel_trans: "err_rel q a b \<Longrightarrow> err_rel q b c \<Longrightarrow> err_rel q a c"
  by (auto simp: err_rel_def)

lemma err_rel_same:
  "errors_found st' = errors_found st \<Longrightarrow> err_out st' = err_out st \<Longrightarrow> err_rel q st st'"
  by (simp add: err_rel_def)

lemma err_rel_argv [simp]: "err_rel q st (st'\<lparr>argv := A\<rparr>) = err_rel q st st'"
  by (simp add: err_rel_def)

lemma err_rel_error:
  "length (err_out st) \<le> length (err_out st')
     \<Longrightarrow> err_rel q st (set_errors_found (print_error e st'))"
  by (simp add: err_rel_def)

lemma process_opt_arg_err1:
  "fst (process_opt_arg strtod d l a st) \<Longrightarrow> err_out (snd (process_opt_arg strtod d l a st)) = err_out st"
  by (cases "opt_type d")
     (simp_all add: process_opt_arg_def Let_def process_str_arg_def process_uint_arg_def
        process_int_arg_def process_float_arg_def run_callback_def split_beta split: if_splits)

lemma process_opt_arg_err2:
  "\<not> fst (process_opt_arg strtod d l a st) \<Longrightarrow> opt_type d \<noteq> DOOSHKI_OPT_CB
     \<Longrightarrow> length (err_out (snd (process_opt_arg strtod d l a st))) = Suc (length (err_out st))"
  by (cases "opt_type d")
     (simp_all add: process_opt_arg_def Let_def process_str_arg_def process_uint_arg_def
        process_int_arg_def process_float_arg_def split_beta split: if_splits)

lemma process_opt_arg_err3:
  "opt_type d = DOOSHKI_OPT_CB \<Longrightarrow> err_out (snd (process_opt_arg strtod d l a st)) = err_out st"
  by (simp add: process_opt_arg_def Let_def)

lemma process_opt_arg_err4:
  "opt_type d = DOOSHKI_OPT_CB \<Longrightarrow> cb_ok True d \<Longrightarrow> fst (process_opt_arg strtod d l a st)"
  by (simp add: process_opt_arg_def Let_def run_callback_def split_beta cb_ok_def)

lemma convert_arg_err:
  assumes "cb_ok q d"
  shows "err_rel q st (convert_arg strtod d l a st)"
proof (cases "fst (process_opt_arg strtod d l a st)")
  case True
  then show ?thesis
    using process_opt_arg_err1[OF True]
    by (simp add: convert_arg_def split_beta err_rel_def)
next
  case False
  show ?thesis
  proof (cases "opt_type d = DOOSHKI_OPT_CB")
    case True
    have "\<not> q" using False process_opt_arg_err4[OF True, of strtod l a st] assms
      by (auto simp: cb_ok_def)
    then show ?thesis
      using False process_opt_arg_err3[OF True, of strtod l a st]
      by (simp add: convert_arg_def split_beta err_rel_def)
  next
    case nc: False
    show ?thesis
      using False process_opt_arg_err2[OF False nc]
      by (simp add: convert_arg_def split_beta err_rel_def)
  qed
qed

lemma callback_step_err:
  assumes "cb_ok q d" and "err_rel q st st1"
  shows "err_rel q st (case run_callback d arg p n st1 of
                         (ok, st2) \<Rightarrow> if \<not> ok then set_errors_found st2 else st2)"
proof -
  have "q \<Longrightarrow> fst (callback d arg (opt_storage d) p n (callback_data d) (mem st1))"
    using assms(1) by (simp add: cb_ok_def)
  then show ?thesis
    using assms(2) by (auto simp: run_callback_def split_beta err_rel_def)
qed


lemma err_rel_unexpected: "err_rel q st (unexpected_argument d a (mark_found d st))"
  by (simp add: unexpected_argument_def err_rel_error)

lemma long_opt_found_err:
  assumes "cb_ok q d"
  shows "err_rel q st (long_opt_found strtod argc i d argument st)"
proof -
  have m: "err_rel q st (mark_found d st)" by (simp add: err_rel_same)
  have ma: "\<And>A. err_rel q st ((mark_found d st)\<lparr>argv := A\<rparr>)" using m by simp
  have c: "\<And>l a st1. err_rel q st st1 \<Longrightarrow> err_rel q st (convert_arg strtod d l a st1)"
    using convert_arg_err[OF assms] err_rel_trans by blast
  have e: "\<And>e A. err_rel q st (set_errors_found (print_error e ((mark_found d st)\<lparr>argv := A\<rparr>)))"
    by (rule err_rel_error) simp
  have s: "\<And>v. err_rel q st (store (opt_storage d) v (mark_found d st))"
    by (simp add: err_rel_same)
  show ?thesis
    by (cases "opt_type d")
       (simp_all add: long_opt_found_def Let_def err_rel_unexpected s c m ma e
          callback_step_err[OF assms m] split: option.splits prod.splits)
qed

lemma err_rel_unrecognized:
  "err_rel q st (unrecognized_long s st)" "err_rel q st (unrecognized_short c st)"
  by (simp_all add: unrecognized_long_def unrecognized_short_def err_rel_error)

lemma long_opt_loop_err:
  assumes "\<forall>d \<in> set tbl. cb_ok q d"
  shows "err_rel q st (long_opt_loop strtod argc i s n argument tbl st)"
  using assms
  by (induction tbl) (simp_all add: long_opt_found_err err_rel_unrecognized split: option.splits)

lemma err_rel_set_show [simp]:
  "err_rel q st (set_show_help st)" "err_rel q st (set_show_version st)"
  by (simp_all add: set_show_help_def set_show_version_def err_rel_def)

lemma process_long_opt_err:
  assumes "\<forall>d \<in> set (opt_desc ctxt). cb_ok q d"
  shows "err_rel q st (process_long_opt strtod ctxt argc i st)"
  using assms by (simp add: process_long_opt_def Let_def long_opt_loop_err)

lemma short_opt_found_err:
  assumes "cb_ok q d"
  shows "err_rel q st (short_opt_found strtod argc i d st)"
proof -
  have m: "err_rel q st (mark_found d st)" by (simp add: err_rel_same)
  have ma: "\<And>A. err_rel q st ((mark_found d st)\<lparr>argv := A\<rparr>)" using m by simp
  have c: "\<And>l a st1. err_rel q st st1 \<Longrightarrow> err_rel q st (convert_arg strtod d l a st1)"
    using convert_arg_err[OF assms] err_rel_trans by blast
  have e: "\<And>e A. err_rel q st (set_errors_found (print_error e ((mark_found d st)\<lparr>argv := A\<rparr>)))"
    by (rule err_rel_error) simp
  have s: "\<And>v. err_rel q st (store (opt_storage d) v (mark_found d st))"
    by (simp add: err_rel_same)
  show ?thesis
    by (cases "opt_type d")
       (simp_all add: short_opt_found_def Let_def s c m ma e
          callback_step_err[OF assms m] split: option.splits prod.splits)
qed

lemma short_opt_loop_err:
  assumes "\<forall>d \<in> set tbl. cb_ok q d"
  shows "err_rel q st (short_opt_loop strtod argc i c tbl st)"
  using assms
  by (induction tbl) (simp_all add: short_opt_found_err err_rel_unrecognized split: option.splits)

lemma short_chars_loop_err:
  assumes "\<forall>d \<in> set (opt_desc ctxt). cb_ok q d"
  shows "err_rel q st (short_chars_loop strtod ctxt argc i s k st)"
  using assms
proof (induction strtod ctxt argc i s k st rule: short_chars_loop.induct)
  case (1 strtod ctxt argc i s k st)
  show ?case
  proof (cases "char_at s k \<noteq> CHR 0x00")
    case True
    let ?st1 = "(if char_at s k = CHR ''h'' then set_show_help st
           else if char_at s k = CHR ''V'' then set_show_version st
           else short_opt_loop strtod argc i (char_at s k) (opt_desc ctxt) st)"
    have a: "err_rel q st ?st1" using 1(2) by (simp add: short_opt_loop_err)
    have b: "err_rel q ?st1 (short_chars_loop strtod ctxt argc i s (k + 1) ?st1)"
      using 1(1)[OF True 1(2)] by simp
    show ?thesis
      using err_rel_trans[OF a b] True by (subst short_chars_loop.simps) simp
  next
    case False
    then show ?thesis by (subst short_chars_loop.simps) simp
  qed
qed

lemma scan_step_err:
  assumes "\<forall>d \<in> set (opt_desc ctxt). cb_ok q d"
  shows "err_rel q st (snd (scan_step strtod ctxt argc i st))"
  using assms
  by (simp add: scan_step_def process_long_opt_err short_chars_loop_err process_short_opts_def
      split: option.splits)

lemma scan_visits_err:
  assumes "\<forall>d \<in> set (opt_desc ctxt). cb_ok q d"
  shows "scan_visits strtod ctxt argc c c' \<Longrightarrow> err_rel q (snd (snd c)) (snd (snd c'))"
proof (induction rule: scan_visits.induct)
  case (visits_here c)
  show ?case by simp
next
  case (visits_step c i st stop' st')
  have "err_rel q st st'"
    using scan_step_err[OF assms, of st strtod argc i] visits_step(3) by simp
  then show ?case using visits_step(4) err_rel_trans by fastforce
qed

lemma scan_visits_loop_end:
  "\<exists>i' stop'. scan_visits strtod ctxt argc (i, stop, st)
       (i', stop', scan_loop strtod ctxt argc i stop st) \<and> (stop' \<or> argc \<le> i')"
proof (induction strtod ctxt argc i stop st rule: scan_loop.induct)
  case (1 strtod ctxt argc i stop st)
  show ?case
  proof (cases "i < argc \<and> \<not> stop")
    case True
    obtain s1 st1 where st: "scan_step strtod ctxt argc i st = (s1, st1)"
      by (cases "scan_step strtod ctxt argc i st")
    from 1[OF True st[symmetric]] obtain i' stop' where
      v: "scan_visits strtod ctxt argc (i + 1, s1, st1)
            (i', stop', scan_loop strtod ctxt argc (i + 1) s1 st1)"
      and f: "stop' \<or> argc \<le> i'" by blast
    have w: "scan_visits strtod ctxt argc (i, stop, st) (i + 1, s1, st1)"
      using True st visits_step[OF visits_here, of i argc strtod ctxt st s1 st1] by simp
    have e: "scan_loop strtod ctxt argc i stop st = scan_loop strtod ctxt argc (i + 1) s1 st1"
      using True st by (subst scan_loop.simps) simp
    show ?thesis
      using scan_visits_trans[OF v w] e f by auto
  next
    case False
    have "scan_loop strtod ctxt argc i stop st = st"
      using False by (subst scan_loop.simps) auto
    moreover have "stop \<or> argc \<le> i" using False by auto
    ultimately show ?thesis
      using visits_here[of strtod ctxt argc "(i, stop, st)"] by metis
  qed
qed

lemma callbacks_succeed_cb_ok:
  "\<forall>d \<in> set tbl. cb_ok (callbacks_succeed tbl) d"
  by (auto simp: cb_ok_def callbacks_succeed_def)

lemma scan_loop_errors_kept:
  "errors_found st \<Longrightarrow> errors_found (scan_loop strtod ctxt argc i stop st)"
proof -
  obtain i' stop' where
    v: "scan_visits strtod ctxt argc (i, stop, st) (i', stop', scan_loop strtod ctxt argc i stop st)"
    using scan_visits_loop by blast
  have "\<forall>d \<in> set (opt_desc ctxt). cb_ok False d" by (simp add: cb_ok_def)
  from scan_visits_err[OF this v] show "errors_found st \<Longrightarrow> ?thesis"
    by (simp add: err_rel_def)
qed

text \<open>A callback that returns 0 sets the error flag, in each of the three places it is called.\<close>

lemma callback_failure_registers:
  "opt_type d = DOOSHKI_OPT_CB_NOARG
     \<Longrightarrow> \<not> fst (run_callback d None ''--'' (the (long_name d)) (mark_found d st))
     \<Longrightarrow> errors_found (long_opt_found strtod argc i d None st)"
  "opt_type d = DOOSHKI_OPT_CB_NOARG
     \<Longrightarrow> \<not> fst (run_callback d None ''-'' (the (short_name d)) (mark_found d st))
     \<Longrightarrow> errors_found (short_opt_found strtod argc i d st)"
  "opt_type d = DOOSHKI_OPT_CB
     \<Longrightarrow> \<not> fst (run_callback d (Some a) (if l then ''--'' else ''-'')
                  (if l then the (long_name d) else the (short_name d)) st)
     \<Longrightarrow> errors_found (convert_arg strtod d l a st)"
  by (simp_all add: long_opt_found_def short_opt_found_def convert_arg_def process_opt_arg_def
      Let_def split_beta)

text \<open>
  An iteration that leaves the error flag set keeps the call from returning
  \<open>DOOSHKI_ARGS_PARSE_OK\<close>; such is the iteration for a long option of type
  \<open>DOOSHKI_OPT_CB_NOARG\<close> whose callback returns 0.
\<close>

lemma registered_error_outcome:
  assumes "scan_visits strtod ctxt argc (1, False, initial_state av m) (i, False, st)"
    and "i < argc" and "errors_found (snd (scan_step strtod ctxt argc i st))"
  shows "ret (dooshki_args_parse strtod ctxt argc av m) \<noteq> DOOSHKI_ARGS_PARSE_OK"
proof -
  let ?fin = "scan_loop strtod ctxt argc 1 False (initial_state av m)"
  have "?fin = scan_loop strtod ctxt argc i False st"
    using scan_visits_same_result[OF assms(1)] by simp
  also have "\<dots> = scan_loop strtod ctxt argc (i + 1) (fst (scan_step strtod ctxt argc i st))
                       (snd (scan_step strtod ctxt argc i st))"
    using assms(2) by (subst scan_loop.simps) (simp add: split_beta)
  finally have "errors_found ?fin"
    using scan_loop_errors_kept[OF assms(3)] by simp
  then show ?thesis
    by (simp add: dooshki_args_parse_def Let_def split_beta outcome_def)
qed

lemma callback_failure_step:
  assumes "argv st ! i = Some w" and "char_at w 0 = CHR ''-''" and "char_at w 1 = CHR ''-''"
    and "char_at w 2 \<noteq> CHR 0x00" and "w \<noteq> ''--help''" and "w \<noteq> ''--version''"
    and "first_long_match (opt_desc ctxt) (candidate_name w) = Some d"
    and "opt_type d = DOOSHKI_OPT_CB_NOARG" and "inline_value w = None"
    and "\<not> fst (callback d None (opt_storage d) ''--'' (the (long_name d)) (callback_data d)
                 (mem (mark_found d st)))"
  shows "errors_found (snd (scan_step strtod ctxt argc i st))"
proof -
  have "\<not> fst (run_callback d None ''--'' (the (long_name d)) (mark_found d st))"
    using assms(10) by (simp add: run_callback_def split_beta)
  then have "errors_found (long_opt_found strtod argc i d None st)"
    using callback_failure_registers(1)[OF assms(8)] by blast
  then show ?thesis
    using assms(1-4,7,9) process_long_opt_lookup[OF assms(1,5,6), of strtod ctxt argc]
    by (simp add: scan_step_def)
qed

text \<open>
  Claim C5.  One outcome is returned by a call of \<open>dooshki_args_parse\<close>, and it is computed
  from the state in which the scan has ended: the configuration reached from the initial
  one by the iterations of the scanning loop in which the index has come to \<open>*argc\<close> or
  the end marker has been seen.  The messages of the call are those printed up to that
  state; the error flag is set there if a message was printed during the scan, and, when
  no callback of the table fails, only then.  The outcome is \<open>DOOSHKI_ARGS_HELP_SHOWN\<close> if
  \<open>show_help\<close> is set, whatever \<open>show_version\<close> and the errors are; otherwise
  \<open>DOOSHKI_ARGS_VER_SHOWN\<close> if \<open>show_version\<close> is set; otherwise
  \<open>DOOSHKI_ARGS_PARSE_ERROR\<close> if an error was registered; otherwise \<open>DOOSHKI_ARGS_PARSE_OK\<close>.
\<close>

theorem parse_outcome:
  "\<exists>i stop st.
     scan_visits strtod args_ctxt argc (1, False, initial_state av m) (i, stop, st)
     \<and> (stop \<or> argc \<le> i)
     \<and> res_err (dooshki_args_parse strtod args_ctxt argc av m) = err_out st
     \<and> (err_out st \<noteq> [] \<longrightarrow> errors_found st)
     \<and> (callbacks_succeed (opt_desc args_ctxt) \<longrightarrow> errors_found st \<longrightarrow> err_out st \<noteq> [])
     \<and> ret (dooshki_args_parse strtod args_ctxt argc av m)
           = (if show_help st then DOOSHKI_ARGS_HELP_SHOWN
              else if show_version st then DOOSHKI_ARGS_VER_SHOWN
              else if errors_found st then DOOSHKI_ARGS_PARSE_ERROR
              else DOOSHKI_ARGS_PARSE_OK)"
proof -
  let ?st = "scan_loop strtod args_ctxt argc 1 False (initial_state av m)"
  obtain i stop where
    v: "scan_visits strtod args_ctxt argc (1, False, initial_state av m) (i, stop, ?st)"
    and f: "stop \<or> argc \<le> i"
    using scan_visits_loop_end by blast
  have r: "err_rel (callbacks_succeed (opt_desc args_ctxt)) (initial_state av m) ?st"
    using scan_visits_err[OF callbacks_succeed_cb_ok v] by simp
  have a: "err_out ?st \<noteq> [] \<longrightarrow> errors_found ?st"
    using r by (simp add: err_rel_def initial_state_def)
  have b: "callbacks_succeed (opt_desc args_ctxt) \<longrightarrow> errors_found ?st \<longrightarrow> err_out ?st \<noteq> []"
    using r by (simp add: err_rel_def initial_state_def)
  have c: "res_err (dooshki_args_parse strtod args_ctxt argc av m) = err_out ?st"
    by (simp add: dooshki_args_parse_def Let_def split_beta)
  have d: "ret (dooshki_args_parse strtod args_ctxt argc av m)
           = (if show_help ?st then DOOSHKI_ARGS_HELP_SHOWN
              else if show_version ?st then DOOSHKI_ARGS_VER_SHOWN
              else if errors_found ?st then DOOSHKI_ARGS_PARSE_ERROR
              else DOOSHKI_ARGS_PARSE_OK)"
    by (simp add: dooshki_args_parse_def outcome_def Let_def split_beta)
  show ?thesis
    using v f a b c d by blast
qed


theorem parse_outcome_witness:
  "callbacks_succeed (opt_desc cli_args_context)
   \<and> (\<exists>i stop st.
         scan_visits strtod_none cli_args_context 4
           (1, False, initial_state [Some ''demo'', Some ''-h'', Some ''extra'', Some ''--bogus'']
                        Map.empty) (i, stop, st)
         \<and> (stop \<or> 4 \<le> i) \<and> err_out st = [Unrecognized_option ''--bogus'']
         \<and> errors_found st \<and> show_help st)
   \<and> ret (dooshki_args_parse strtod_none cli_args_context 4
            [Some ''demo'', Some ''-h'', Some ''extra'', Some ''--bogus''] Map.empty)
         = DOOSHKI_ARGS_HELP_SHOWN
   \<and> (\<exists>i stop st.
         scan_visits strtod_none cli_args_context 2
           (1, False, initial_state [Some ''demo'', Some ''--bogus''] Map.empty) (i, stop, st)
         \<and> (stop \<or> 2 \<le> i) \<and> err_out st = [Unrecognized_option ''--bogus'']
         \<and> errors_found st \<and> \<not> show_help st \<and> \<not> show_version st)
   \<and> ret (dooshki_args_parse strtod_none cli_args_context 2
            [Some ''demo'', Some ''--bogus''] Map.empty)
         = DOOSHKI_ARGS_PARSE_ERROR"
proof -
  let ?a = "[Some ''demo'', Some ''-h'', Some ''extra'', Some ''--bogus'']"
  let ?b = "[Some ''demo'', Some ''--bogus'']"
  have q: "callbacks_succeed (opt_desc cli_args_context)"
    by (simp add: callbacks_succeed_def cli_args_context_def cli_options_def no_callback_def)
  have ea: "res_err (dooshki_args_parse strtod_none cli_args_context 4 ?a Map.empty)
              = [Unrecognized_option ''--bogus'']"
    by code_simp
  have ra: "ret (dooshki_args_parse strtod_none cli_args_context 4 ?a Map.empty)
              = DOOSHKI_ARGS_HELP_SHOWN"
    by code_simp
  have eb: "res_err (dooshki_args_parse strtod_none cli_args_context 2 ?b Map.empty)
              = [Unrecognized_option ''--bogus'']"
    by code_simp
  have rb: "ret (dooshki_args_parse strtod_none cli_args_context 2 ?b Map.empty)
              = DOOSHKI_ARGS_PARSE_ERROR"
    by code_simp
  have A: "\<exists>i stop st.
         scan_visits strtod_none cli_args_context 4 (1, False, initial_state ?a Map.empty) (i, stop, st)
         \<and> (stop \<or> 4 \<le> i) \<and> err_out st = [Unrecognized_option ''--bogus'']
         \<and> errors_found st \<and> show_help st"
    using parse_outcome [where strtod = strtod_none and args_ctxt = cli_args_context
        and argc = 4 and av = ?a and m = Map.empty]
    unfolding ea ra by (metis dooshki_args_ret.distinct(1,7,9) list.distinct(1))
  have B: "\<exists>i stop st.
         scan_visits strtod_none cli_args_context 2 (1, False, initial_state ?b Map.empty) (i, stop, st)
         \<and> (stop \<or> 2 \<le> i) \<and> err_out st = [Unrecognized_option ''--bogus'']
         \<and> errors_found st \<and> \<not> show_help st \<and> \<not> show_version st"
    using parse_outcome [where strtod = strtod_none and args_ctxt = cli_args_context
        and argc = 2 and av = ?b and m = Map.empty]
    unfolding eb rb by (metis dooshki_args_ret.distinct(5,9,11) list.distinct(1))
  show ?thesis using q A B ra rb by blast
qed

text \<open>
  The example of the specification: \<open>-h extra --bogus\<close> gives the help outcome, the error
  for \<open>--bogus\<close> is still printed, and \<open>extra\<close> is left in the vector.
\<close>

lemma help_with_error_example:
  "(let r = dooshki_args_parse strtod_none cli_args_context 4
              [Some ''demo'', Some ''-h'', Some ''extra'', Some ''--bogus''] Map.empty
    in ret r = DOOSHKI_ARGS_HELP_SHOWN
       \<and> res_err r = [Unrecognized_option ''--bogus'']
       \<and> words_of r = [Some ''demo'', Some ''extra''])"
  by code_simp

section \<open>Compaction\<close>

lemma pull_loop_append:
  "pull_loop (length pre + Suc (k + length r)) (length pre) (length pre + Suc k)
       (pre @ None # replicate k None @ r)
     = (case dropWhile (\<lambda>x. x = None) r of
          [] \<Rightarrow> pre @ None # replicate k None @ r
        | y # r' \<Rightarrow> pre @ y # replicate (Suc (k + length (takeWhile (\<lambda>x. x = None) r))) None @ r')"
proof (induction r arbitrary: k)
  case Nil
  show ?case by (subst pull_loop.simps) simp
next
  case (Cons x r2)
  let ?L = "pre @ None # replicate k None @ x # r2"
  have nth: "?L ! (length pre + Suc k) = x"
    by (simp add: nth_append)
  show ?case
  proof (cases x)
    case None
    have eq: "?L = pre @ None # replicate (Suc k) None @ r2"
      using None by (simp add: replicate_app_Cons_same)
    have "pull_loop (length pre + Suc (k + length (x # r2))) (length pre) (length pre + Suc k) ?L
        = pull_loop (length pre + Suc (k + length (x # r2))) (length pre) (length pre + Suc k + 1) ?L"
      using None nth by (subst pull_loop.simps) simp
    also have "\<dots> = pull_loop (length pre + Suc (Suc k + length r2)) (length pre)
                       (length pre + Suc (Suc k)) (pre @ None # replicate (Suc k) None @ r2)"
      unfolding eq by simp
    also have "\<dots> = (case dropWhile (\<lambda>x. x = None) r2 of
          [] \<Rightarrow> pre @ None # replicate (Suc k) None @ r2
        | y # r' \<Rightarrow> pre @ y # replicate (Suc (Suc k + length (takeWhile (\<lambda>x. x = None) r2))) None @ r')"
      by (rule Cons)
    also have "\<dots> = (case dropWhile (\<lambda>x. x = None) (x # r2) of
          [] \<Rightarrow> ?L
        | y # r' \<Rightarrow> pre @ y # replicate (Suc (k + length (takeWhile (\<lambda>x. x = None) (x # r2)))) None @ r')"
      unfolding eq None by (simp add: replicate_app_Cons_same cong: list.case_cong)
    finally show ?thesis .
  next
    case (Some v)
    have "pull_loop (length pre + Suc (k + length (x # r2))) (length pre) (length pre + Suc k) ?L
        = (?L[length pre := x])[length pre + Suc k := None]"
      using Some nth by (subst pull_loop.simps) simp
    also have "\<dots> = pre @ x # replicate (Suc k) None @ r2"
      by (simp add: list_update_append replicate_app_Cons_same)
    finally show ?thesis using Some by simp
  qed
qed

lemma takeWhile_None_replicate:
  "takeWhile (\<lambda>x. x = None) xs = replicate (length (takeWhile (\<lambda>x. x = None) xs)) None"
  by (induction xs) auto

lemma all_None_filter:
  assumes "dropWhile (\<lambda>x. x = None) xs = []"
  shows "filter (\<lambda>x. x \<noteq> None) xs = []"
    and "replicate (length (filter (\<lambda>x. x = None) xs)) None = xs"
  using assms by (induction xs) (auto split: if_splits)

lemma deflate_loop_append:
  "deflate_loop (length pre + length r) (length pre) (pre @ r)
     = (length pre + length (filter (\<lambda>x. x \<noteq> None) r),
        pre @ filter (\<lambda>x. x \<noteq> None) r
            @ replicate (length (filter (\<lambda>x. x = None) r)) None)"
proof (induction "length r" arbitrary: pre r)
  case 0
  then show ?case by (subst deflate_loop.simps) simp
next
  case (Suc n)
  then obtain x r2 where r: "r = x # r2" and n: "length r2 = n"
    by (cases r) auto
  show ?case
  proof (cases x)
    case (Some v)
    have "deflate_loop (length pre + length r) (length pre) (pre @ r)
            = deflate_loop (length (pre @ [x]) + length r2) (length (pre @ [x])) ((pre @ [x]) @ r2)"
      using r Some by (subst deflate_loop.simps) (simp add: nth_append)
    also have "\<dots> = (length (pre @ [x]) + length (filter (\<lambda>x. x \<noteq> None) r2),
        (pre @ [x]) @ filter (\<lambda>x. x \<noteq> None) r2
            @ replicate (length (filter (\<lambda>x. x = None) r2)) None)"
      using Suc(1)[of r2 "pre @ [x]"] n by blast
    finally show ?thesis using r Some by simp
  next
    case None
    define t where "t = length (takeWhile (\<lambda>x. x = None) r2)"
    have pull: "pull_loop (length pre + length r) (length pre) (length pre + 1) (pre @ r)
        = (case dropWhile (\<lambda>x. x = None) r2 of
             [] \<Rightarrow> pre @ r
           | y # r' \<Rightarrow> pre @ y # replicate (Suc t) None @ r')"
      using pull_loop_append[of pre 0 r2] r None by (simp add: t_def cong: list.case_cong)
    show ?thesis
    proof (cases "dropWhile (\<lambda>x. x = None) r2")
      case Nil
      have "deflate_loop (length pre + length r) (length pre) (pre @ r) = (length pre, pre @ r)"
        using r None pull Nil by (subst deflate_loop.simps) (simp add: nth_append Let_def)
      then show ?thesis
        using all_None_filter[OF Nil] r None by simp
    next
      case (Cons y r')
      have "y \<noteq> None"
        using hd_dropWhile[of "\<lambda>x. x = None" r2] Cons by auto
      then obtain v where yv: "y = Some v" by (cases y) auto
      have r2: "r2 = replicate t None @ y # r'"
        using takeWhile_dropWhile_id[of "\<lambda>x. x = None" r2] Cons
          takeWhile_None_replicate[of r2] by (simp add: t_def)
      let ?r = "replicate (Suc t) None @ r'"
      have len: "length ?r = n"
        using n r2 by simp
      have fr: "filter (\<lambda>x. x \<noteq> None) r = y # filter (\<lambda>x. x \<noteq> None) r'"
        using r None r2 yv by simp
      have cr: "length (filter (\<lambda>x. x = None) r) = Suc (t + length (filter (\<lambda>x. x = None) r'))"
        using r None r2 yv by simp
      have fr': "filter (\<lambda>x. x \<noteq> None) ?r = filter (\<lambda>x. x \<noteq> None) r'"
        by simp
      have cr': "length (filter (\<lambda>x. x = None) ?r) = Suc (t + length (filter (\<lambda>x. x = None) r'))"
        by simp
      have "deflate_loop (length pre + length r) (length pre) (pre @ r)
              = deflate_loop (length pre + length r) (length pre + 1) (pre @ y # ?r)"
        using r None pull Cons yv by (subst deflate_loop.simps) (simp add: nth_append Let_def)
      also have "\<dots> = deflate_loop (length (pre @ [y]) + length ?r) (length (pre @ [y]))
                          ((pre @ [y]) @ ?r)"
        using len n r by simp
      also have "\<dots> = (length (pre @ [y]) + length (filter (\<lambda>x. x \<noteq> None) ?r),
          (pre @ [y]) @ filter (\<lambda>x. x \<noteq> None) ?r
              @ replicate (length (filter (\<lambda>x. x = None) ?r)) None)"
        using Suc(1)[of ?r "pre @ [y]"] len by blast
      also have "\<dots> = (length pre + length (filter (\<lambda>x. x \<noteq> None) r),
          pre @ filter (\<lambda>x. x \<noteq> None) r
              @ replicate (length (filter (\<lambda>x. x = None) r)) None)"
        unfolding fr cr fr' cr' by simp
      finally show ?thesis .
    qed
  qed
qed

section \<open>What the call leaves in the argument vector\<close>

lemma nulls_only_refl [simp]: "nulls_only av av"
  by (simp add: nulls_only_def)

lemma nulls_only_trans: "nulls_only a b \<Longrightarrow> nulls_only b c \<Longrightarrow> nulls_only a c"
  unfolding nulls_only_def by (metis)

lemma nulls_only_update: "0 < j \<Longrightarrow> nulls_only av (av[j := None])"
  by (cases "j < length av") (auto simp: nulls_only_def nth_list_update)

lemma nulls_only_update_trans:
  "nulls_only av av' \<Longrightarrow> 0 < j \<Longrightarrow> nulls_only av (av'[j := None])"
  using nulls_only_trans nulls_only_update by blast

lemma short_arg_loop_Some: "short_arg_loop argc j (Some t) av = (Some t, av)"
  by (subst short_arg_loop.simps) simp

lemma short_arg_loop_eq: "short_arg_loop argc j None av = long_arg_loop argc j av"
proof (induction argc j av rule: long_arg_loop.induct)
  case (1 argc j av)
  show ?case
    using 1
    by (subst short_arg_loop.simps, subst long_arg_loop.simps)
       (auto simp: short_arg_loop_Some split: option.splits)
qed

lemma long_arg_loop_nulls: "0 < j \<Longrightarrow> nulls_only av (snd (long_arg_loop argc j av))"
proof (induction argc j av rule: long_arg_loop.induct)
  case (1 argc j av)
  show ?case
    using 1
    by (subst long_arg_loop.simps) (auto simp: nulls_only_update split: option.splits)
qed

lemma long_opt_found_nulls:
  "nulls_only (argv st) (argv (long_opt_found strtod argc i d argument st))"
  using long_arg_loop_nulls[of "Suc i" "argv st" argc]
  by (simp add: long_opt_found_def Let_def split_beta split: option.splits)

lemma long_opt_loop_nulls:
  "nulls_only (argv st) (argv (long_opt_loop strtod argc i s n argument tbl st))"
  by (induction tbl) (simp_all add: long_opt_found_nulls split: option.splits)

lemma set_show_argv [simp]:
  "argv (set_show_help st) = argv st" "argv (set_show_version st) = argv st"
  by (simp_all add: set_show_help_def set_show_version_def)

lemma process_long_opt_nulls:
  "nulls_only (argv st) (argv (process_long_opt strtod ctxt argc i st))"
  by (simp add: process_long_opt_def Let_def long_opt_loop_nulls)

lemma short_opt_found_nulls:
  "nulls_only (argv st) (argv (short_opt_found strtod argc i d st))"
  using long_arg_loop_nulls[of "Suc i" "argv st" argc]
  by (simp add: short_opt_found_def Let_def split_beta short_arg_loop_eq split: option.splits)

lemma short_opt_loop_nulls:
  "nulls_only (argv st) (argv (short_opt_loop strtod argc i c tbl st))"
  by (induction tbl) (simp_all add: short_opt_found_nulls split: option.splits)

lemma short_chars_loop_nulls:
  "nulls_only (argv st) (argv (short_chars_loop strtod ctxt argc i s k st))"
proof (induction strtod ctxt argc i s k st rule: short_chars_loop.induct)
  case (1 strtod ctxt argc i s k st)
  show ?case
  proof (cases "char_at s k \<noteq> CHR 0x00")
    case True
    let ?st1 = "(if char_at s k = CHR ''h'' then set_show_help st
           else if char_at s k = CHR ''V'' then set_show_version st
           else short_opt_loop strtod argc i (char_at s k) (opt_desc ctxt) st)"
    have a: "nulls_only (argv st) (argv ?st1)" by (simp add: short_opt_loop_nulls)
    have b: "nulls_only (argv ?st1) (argv (short_chars_loop strtod ctxt argc i s (k + 1) ?st1))"
      using 1 True by simp
    show ?thesis
      using nulls_only_trans[OF a b] True by (subst short_chars_loop.simps) simp
  next
    case False
    then show ?thesis by (subst short_chars_loop.simps) simp
  qed
qed

lemma scan_step_nulls:
  "0 < i \<Longrightarrow> nulls_only (argv st) (argv (snd (scan_step strtod ctxt argc i st)))"
  by (simp add: scan_step_def process_short_opts_def nulls_only_update
      nulls_only_update_trans process_long_opt_nulls short_chars_loop_nulls
      split: option.splits)

lemma scan_loop_nulls:
  "0 < i \<Longrightarrow> nulls_only (argv st) (argv (scan_loop strtod ctxt argc i stop st))"
proof (induction strtod ctxt argc i stop st rule: scan_loop.induct)
  case (1 strtod ctxt argc i stop st)
  show ?case
  proof (cases "i < argc \<and> \<not> stop")
    case True
    obtain s1 st1 where st: "scan_step strtod ctxt argc i st = (s1, st1)"
      by (cases "scan_step strtod ctxt argc i st")
    have a: "nulls_only (argv st) (argv st1)"
      using scan_step_nulls[OF 1(2), of st strtod ctxt argc] st by simp
    have b: "nulls_only (argv st1) (argv (scan_loop strtod ctxt argc (i + 1) s1 st1))"
      using 1(1)[OF True st[symmetric]] by simp
    show ?thesis
      using nulls_only_trans[OF a b] True st by (subst scan_loop.simps) simp
  next
    case False
    then show ?thesis by (subst scan_loop.simps) auto
  qed
qed

lemma unmarked_filter:
  "length ms = length ws \<Longrightarrow> \<forall>j < length ws. ms ! j = Some (ws ! j) \<or> ms ! j = None
     \<Longrightarrow> filter (\<lambda>x. x \<noteq> None) ms = map Some (unmarked ws ms)"
proof (induction ws arbitrary: ms)
  case Nil
  then show ?case by (simp add: unmarked_def)
next
  case (Cons w ws)
  then obtain m ms' where ms: "ms = m # ms'" by (cases ms) auto
  have "\<forall>j < length ws. ms' ! j = Some (ws ! j) \<or> ms' ! j = None"
    using Cons(3) ms by fastforce
  then have ih: "filter (\<lambda>x. x \<noteq> None) ms' = map Some (unmarked ws ms')"
    using Cons ms by simp
  have "m = Some w \<or> m = None" using Cons(3) ms by fastforce
  then show ?case using ih ms by (auto simp: unmarked_def)
qed

lemma nulls_only_words:
  assumes "nulls_only (map Some (prog # ws)) av"
  shows "av = Some prog # tl av"
    and "filter (\<lambda>x. x \<noteq> None) (tl av) = map Some (unmarked ws (tl av))"
    and "length (tl av) = length ws"
proof -
  obtain a r where av: "av = a # r" using assms by (cases av) (auto simp: nulls_only_def)
  have a: "a = Some prog" using assms av by (auto simp: nulls_only_def)
  show "av = Some prog # tl av" using av a by simp
  have len: "length r = length ws" using assms av by (simp add: nulls_only_def)
  then show "length (tl av) = length ws" using av by simp
  have "\<forall>j < length ws. r ! j = Some (ws ! j) \<or> r ! j = None"
  proof (intro allI impI)
    fix j assume "j < length ws"
    then show "r ! j = Some (ws ! j) \<or> r ! j = None"
      using assms av by (auto simp: nulls_only_def dest!: spec[of _ "Suc j"])
  qed
  then show "filter (\<lambda>x. x \<noteq> None) (tl av) = map Some (unmarked ws (tl av))"
    using unmarked_filter[OF len] av by simp
qed

text \<open>
  The scanning loop only sets entries after the first to \<open>NULL\<close>, and the call leaves the
  program name followed by exactly the words whose entry was not set to \<open>NULL\<close>, in their
  order, with \<open>*argc\<close> their number.
\<close>

lemma unmarked_words_kept:
  "(let av = map Some (prog # ws);
        st = scan_loop strtod args_ctxt (length av) 1 False (initial_state av m);
        r = dooshki_args_parse strtod args_ctxt (length av) av m;
        kept = unmarked ws (tl (argv st))
    in nulls_only av (argv st)
       \<and> words_of r = map Some (prog # kept)
       \<and> res_argc r = Suc (length kept))"
proof -
  let ?av = "map Some (prog # ws)"
  let ?st = "scan_loop strtod args_ctxt (length ?av) 1 False (initial_state ?av m)"
  have n: "nulls_only ?av (argv ?st)"
    using scan_loop_nulls[of 1 "initial_state ?av m" strtod args_ctxt "length ?av" False]
    by (simp add: initial_state_def)
  note w = nulls_only_words[OF n]
  have d: "deflate_args_list (length ?av) (argv ?st)
             = (Suc (length (unmarked ws (tl (argv ?st)))),
                Some prog # map Some (unmarked ws (tl (argv ?st)))
                  @ replicate (length (filter (\<lambda>x. x = None) (tl (argv ?st)))) None)"
    using deflate_loop_append[of "[Some prog]" "tl (argv ?st)"] w
    by (simp add: deflate_args_list_def)
  show ?thesis
    using n d by (simp add: dooshki_args_parse_def Let_def words_of_def)
qed

section \<open>The end-of-options marker\<close>

subsection \<open>Routines that do not look at the vector\<close>

lemma store_argv_upd [simp]: "store a v (st\<lparr>argv := A\<rparr>) = (store a v st)\<lparr>argv := A\<rparr>"
  by (simp add: store_def)

lemma print_error_argv_upd [simp]: "print_error e (st\<lparr>argv := A\<rparr>) = (print_error e st)\<lparr>argv := A\<rparr>"
  by (simp add: print_error_def)

lemma set_errors_found_argv_upd [simp]:
  "set_errors_found (st\<lparr>argv := A\<rparr>) = (set_errors_found st)\<lparr>argv := A\<rparr>"
  by (simp add: set_errors_found_def)

lemma mark_found_argv_upd [simp]: "mark_found d (st\<lparr>argv := A\<rparr>) = (mark_found d st)\<lparr>argv := A\<rparr>"
  by (simp add: mark_found_def split: option.splits)

lemma unexpected_argument_argv_upd [simp]:
  "unexpected_argument d a (st\<lparr>argv := A\<rparr>) = (unexpected_argument d a st)\<lparr>argv := A\<rparr>"
  by (simp add: unexpected_argument_def)

lemma unrecognized_argv_upd [simp]:
  "unrecognized_long s (st\<lparr>argv := A\<rparr>) = (unrecognized_long s st)\<lparr>argv := A\<rparr>"
  "unrecognized_short c (st\<lparr>argv := A\<rparr>) = (unrecognized_short c st)\<lparr>argv := A\<rparr>"
  by (simp_all add: unrecognized_long_def unrecognized_short_def)

lemma set_show_argv_upd [simp]:
  "set_show_help (st\<lparr>argv := A\<rparr>) = (set_show_help st)\<lparr>argv := A\<rparr>"
  "set_show_version (st\<lparr>argv := A\<rparr>) = (set_show_version st)\<lparr>argv := A\<rparr>"
  by (simp_all add: set_show_help_def set_show_version_def)

lemma run_callback_argv_upd [simp]:
  "fst (run_callback d arg p n (st\<lparr>argv := A\<rparr>)) = fst (run_callback d arg p n st)"
  "snd (run_callback d arg p n (st\<lparr>argv := A\<rparr>)) = (snd (run_callback d arg p n st))\<lparr>argv := A\<rparr>"
  by (simp_all add: run_callback_def split_beta)

lemma process_str_arg_argv_upd [simp]:
  "fst (process_str_arg d a (st\<lparr>argv := A\<rparr>)) = fst (process_str_arg d a st)"
  "snd (process_str_arg d a (st\<lparr>argv := A\<rparr>)) = (snd (process_str_arg d a st))\<lparr>argv := A\<rparr>"
  by (simp_all add: process_str_arg_def)

lemma process_uint_arg_argv_upd [simp]:
  "fst (process_uint_arg d p n a (st\<lparr>argv := A\<rparr>)) = fst (process_uint_arg d p n a st)"
  "snd (process_uint_arg d p n a (st\<lparr>argv := A\<rparr>)) = (snd (process_uint_arg d p n a st))\<lparr>argv := A\<rparr>"
  by (simp_all add: process_uint_arg_def split_beta Let_def)

lemma process_int_arg_argv_upd [simp]:
  "fst (process_int_arg d p n a (st\<lparr>argv := A\<rparr>)) = fst (process_int_arg d p n a st)"
  "snd (process_int_arg d p n a (st\<lparr>argv := A\<rparr>)) = (snd (process_int_arg d p n a st))\<lparr>argv := A\<rparr>"
  by (simp_all add: process_int_arg_def split_beta Let_def)

lemma process_float_arg_argv_upd [simp]:
  "fst (process_float_arg strtod d p n a (st\<lparr>argv := A\<rparr>)) = fst (process_float_arg strtod d p n a st)"
  "snd (process_float_arg strtod d p n a (st\<lparr>argv := A\<rparr>))
     = (snd (process_float_arg strtod d p n a st))\<lparr>argv := A\<rparr>"
  by (simp_all add: process_float_arg_def split_beta Let_def)

lemma process_opt_arg_argv_upd [simp]:
  "fst (process_opt_arg strtod d l a (st\<lparr>argv := A\<rparr>)) = fst (process_opt_arg strtod d l a st)"
  "snd (process_opt_arg strtod d l a (st\<lparr>argv := A\<rparr>))
     = (snd (process_opt_arg strtod d l a st))\<lparr>argv := A\<rparr>"
  by (simp_all add: process_opt_arg_def Let_def split: dooshki_opt_type.splits)

lemma convert_arg_argv_upd [simp]:
  "convert_arg strtod d l a (st\<lparr>argv := A\<rparr>) = (convert_arg strtod d l a st)\<lparr>argv := A\<rparr>"
  by (simp add: convert_arg_def split_beta)

subsection \<open>The search for an argument stops at the end marker\<close>

lemma long_arg_loop_marker:
  "argc = length av \<Longrightarrow> j \<le> argc \<Longrightarrow>
   long_arg_loop (Suc (argc + length Y)) j (av @ Some ''--'' # Y)
     = (fst (long_arg_loop argc j av), snd (long_arg_loop argc j av) @ Some ''--'' # Y)"
proof (induction argc j av rule: long_arg_loop.induct)
  case (1 argc j av)
  note len = 1(2) and le = 1(3)
  show ?case
  proof (cases "j < argc")
    case True
    show ?thesis
    proof (cases "av ! j")
      case None
      then show ?thesis
        using 1 True
        by (subst long_arg_loop.simps, subst (2 3) long_arg_loop.simps)
           (simp add: nth_append)
    next
      case (Some t)
      then show ?thesis
        using len True
        by (subst long_arg_loop.simps, subst (2 3) long_arg_loop.simps)
           (simp add: nth_append list_update_append)
    qed
  next
    case False
    then have "j = argc" using le by simp
    then show ?thesis
      using len
      by (subst long_arg_loop.simps, subst (2 3) long_arg_loop.simps)
         (simp add: nth_append)
  qed
qed


lemma nulls_only_length: "nulls_only av av' \<Longrightarrow> length av' = length av"
  by (simp add: nulls_only_def)

lemma long_opt_found_marker:
  assumes "length (argv st) = n" and "i < n"
  shows "long_opt_found strtod (Suc (n + length Y)) i d argument (append_argv (Some ''--'' # Y) st)
           = append_argv (Some ''--'' # Y) (long_opt_found strtod n i d argument st)"
proof -
  have l: "long_arg_loop (Suc (n + length Y)) (Suc i) (argv st @ Some ''--'' # Y)
     = (fst (long_arg_loop n (Suc i) (argv st)), snd (long_arg_loop n (Suc i) (argv st)) @ Some ''--'' # Y)"
    using long_arg_loop_marker[of n "argv st" "Suc i" Y] assms by simp
  show ?thesis
    by (cases "opt_type d")
       (simp_all add: long_opt_found_def append_argv_def Let_def split_beta l
          split: option.splits)
qed

lemma long_opt_loop_marker:
  assumes "length (argv st) = n" and "i < n"
  shows "long_opt_loop strtod (Suc (n + length Y)) i s k argument tbl (append_argv (Some ''--'' # Y) st)
           = append_argv (Some ''--'' # Y) (long_opt_loop strtod n i s k argument tbl st)"
  by (induction tbl)
     (simp_all add: long_opt_found_marker[OF assms] split: option.splits,
      simp_all add: append_argv_def)

lemma process_long_opt_marker:
  assumes "length (argv st) = n" and "i < n"
  shows "process_long_opt strtod ctxt (Suc (n + length Y)) i (append_argv (Some ''--'' # Y) st)
           = append_argv (Some ''--'' # Y) (process_long_opt strtod ctxt n i st)"
proof -
  have t: "argv (append_argv (Some ''--'' # Y) st) ! i = argv st ! i"
    using assms by (simp add: append_argv_def nth_append)
  show ?thesis
    unfolding process_long_opt_def t Let_def long_opt_loop_marker[OF assms]
    by (simp add: append_argv_def)
qed

lemma short_opt_found_marker:
  assumes "length (argv st) = n" and "i < n"
  shows "short_opt_found strtod (Suc (n + length Y)) i d (append_argv (Some ''--'' # Y) st)
           = append_argv (Some ''--'' # Y) (short_opt_found strtod n i d st)"
proof -
  have l: "long_arg_loop (Suc (n + length Y)) (Suc i) (argv st @ Some ''--'' # Y)
     = (fst (long_arg_loop n (Suc i) (argv st)), snd (long_arg_loop n (Suc i) (argv st)) @ Some ''--'' # Y)"
    using long_arg_loop_marker[of n "argv st" "Suc i" Y] assms by simp
  show ?thesis
    by (cases "opt_type d")
       (simp_all add: short_opt_found_def append_argv_def Let_def split_beta l short_arg_loop_eq
          split: option.splits)
qed

lemma short_opt_loop_marker:
  assumes "length (argv st) = n" and "i < n"
  shows "short_opt_loop strtod (Suc (n + length Y)) i c tbl (append_argv (Some ''--'' # Y) st)
           = append_argv (Some ''--'' # Y) (short_opt_loop strtod n i c tbl st)"
  by (induction tbl)
     (simp_all add: short_opt_found_marker[OF assms] split: option.splits,
      simp_all add: append_argv_def)

lemma short_chars_loop_marker:
  assumes "length (argv st) = n" and "i < n"
  shows "short_chars_loop strtod ctxt (Suc (n + length Y)) i s k (append_argv (Some ''--'' # Y) st)
           = append_argv (Some ''--'' # Y) (short_chars_loop strtod ctxt n i s k st)"
  using assms
proof (induction strtod ctxt n i s k st rule: short_chars_loop.induct)
  case (1 strtod ctxt n i s k st)
  note len = 1(2) and lt = 1(3)
  show ?case
  proof (cases "char_at s k \<noteq> CHR 0x00")
    case True
    let ?st1 = "(if char_at s k = CHR ''h'' then set_show_help st
           else if char_at s k = CHR ''V'' then set_show_version st
           else short_opt_loop strtod n i (char_at s k) (opt_desc ctxt) st)"
    let ?st1' = "(if char_at s k = CHR ''h'' then set_show_help (append_argv (Some ''--'' # Y) st)
           else if char_at s k = CHR ''V'' then set_show_version (append_argv (Some ''--'' # Y) st)
           else short_opt_loop strtod (Suc (n + length Y)) i (char_at s k) (opt_desc ctxt)
                  (append_argv (Some ''--'' # Y) st))"
    have e: "?st1' = append_argv (Some ''--'' # Y) ?st1"
      by (simp add: short_opt_loop_marker[OF len lt]) (simp add: append_argv_def)
    have l1: "length (argv ?st1) = n"
      using len nulls_only_length[OF short_opt_loop_nulls] by simp
    have "short_chars_loop strtod ctxt (Suc (n + length Y)) i s (k + 1) (append_argv (Some ''--'' # Y) ?st1)
            = append_argv (Some ''--'' # Y) (short_chars_loop strtod ctxt n i s (k + 1) ?st1)"
      using 1(1)[OF True l1 lt] .
    then show ?thesis
      using True e
      by (subst short_chars_loop.simps, subst (2) short_chars_loop.simps) simp
  next
    case False
    then show ?thesis
      by (subst short_chars_loop.simps, subst (2) short_chars_loop.simps) simp
  qed
qed


lemma scan_step_marker:
  assumes len: "length (argv st) = n" and lt: "i < n"
  shows "scan_step strtod ctxt (Suc (n + length Y)) i (append_argv (Some ''--'' # Y) st)
           = (fst (scan_step strtod ctxt n i st),
              append_argv (Some ''--'' # Y) (snd (scan_step strtod ctxt n i st)))"
proof -
  have t: "argv (append_argv (Some ''--'' # Y) st) ! i = argv st ! i"
    using assms by (simp add: append_argv_def nth_append)
  have l1: "length (argv (process_long_opt strtod ctxt n i st)) = n"
    using len nulls_only_length[OF process_long_opt_nulls] by simp
  have l2: "length (argv (process_short_opts strtod ctxt n i st)) = n"
    using len nulls_only_length[OF short_chars_loop_nulls] by (simp add: process_short_opts_def)
  have s: "process_short_opts strtod ctxt (Suc (n + length Y)) i (append_argv (Some ''--'' # Y) st)
             = append_argv (Some ''--'' # Y) (process_short_opts strtod ctxt n i st)"
    unfolding process_short_opts_def t by (rule short_chars_loop_marker[OF assms])
  show ?thesis
    unfolding scan_step_def t
    using l1 l2 lt len
    by (simp add: process_long_opt_marker[OF assms] s split: option.splits)
       (simp add: append_argv_def list_update_append)
qed

lemma scan_step_stopper:
  "fst (scan_step strtod ctxt n i st) \<longleftrightarrow> (\<exists>t. argv st ! i = Some t \<and> is_stopper t)"
  by (auto simp: scan_step_def is_stopper_def split: option.splits)

lemma is_stopper_marker [simp]: "is_stopper ''--''"
  by (simp add: is_stopper_def char_at_def)

lemma is_stopper_c_string: "c_string t \<Longrightarrow> is_stopper t \<longleftrightarrow> t = ''--''"
proof
  assume c: "c_string t" and s: "is_stopper t"
  from s obtain t1 where t1: "t = CHR ''-'' # t1"
    by (cases t) (auto simp: is_stopper_def)
  with s obtain t2 where t2: "t1 = CHR ''-'' # t2"
    by (cases t1) (auto simp: is_stopper_def)
  have "t2 = []"
    using s c t1 t2 by (cases t2) (auto simp: is_stopper_def c_string_def char_at_def)
  then show "t = ''--''" using t1 t2 by simp
qed simp

lemma scan_loop_marker:
  assumes "length (argv st) = n" and "0 < i" and "i \<le> n" and "\<not> stop"
    and "\<forall>j t. i \<le> j \<longrightarrow> j < n \<longrightarrow> argv st ! j = Some t \<longrightarrow> \<not> is_stopper t"
  shows "scan_loop strtod ctxt (Suc (n + length Y)) i stop (append_argv (Some ''--'' # Y) st)
           = append_argv (None # Y) (scan_loop strtod ctxt n i stop st)"
  using assms
proof (induction strtod ctxt n i stop st rule: scan_loop.induct)
  case (1 strtod ctxt n i stop st)
  note len = 1(2) and pos = 1(3) and le = 1(4) and ns = 1(5) and nostop = 1(6)
  show ?case
  proof (cases "i < n")
    case True
    obtain s1 st1 where st: "scan_step strtod ctxt n i st = (s1, st1)"
      by (cases "scan_step strtod ctxt n i st")
    have s1: "\<not> s1"
      using scan_step_stopper[of strtod ctxt n i st] st nostop True by auto
    have nl: "nulls_only (argv st) (argv st1)"
      using scan_step_nulls[OF pos, of st strtod ctxt n] st by simp
    have l1: "length (argv st1) = n"
      using nulls_only_length[OF nl] len by simp
    have ns1: "\<forall>j t. i + 1 \<le> j \<longrightarrow> j < n \<longrightarrow> argv st1 ! j = Some t \<longrightarrow> \<not> is_stopper t"
    proof (intro allI impI)
      fix j t assume a: "i + 1 \<le> j" "j < n" "argv st1 ! j = Some t"
      then have "argv st ! j = Some t"
        using nl len by (auto simp: nulls_only_def)
      moreover have "i \<le> j" using a by simp
      ultimately show "\<not> is_stopper t" using nostop a(2) by blast
    qed
    have ih: "scan_loop strtod ctxt (Suc (n + length Y)) (i + 1) s1 (append_argv (Some ''--'' # Y) st1)
                = append_argv (None # Y) (scan_loop strtod ctxt n (i + 1) s1 st1)"
      using 1(1)[OF _ st[symmetric] l1 _ _ s1 ns1] True ns by simp
    have long: "scan_step strtod ctxt (Suc (n + length Y)) i (append_argv (Some ''--'' # Y) st)
                  = (s1, append_argv (Some ''--'' # Y) st1)"
      using scan_step_marker[OF len True, of strtod ctxt Y] st by simp
    show ?thesis
      using True ns st long ih
      by (subst scan_loop.simps[of strtod ctxt n i stop st],
          subst scan_loop.simps[of strtod ctxt "Suc (n + length Y)" i stop
                  "append_argv (Some ''--'' # Y) st"]) simp
  next
    case False
    then have i: "i = n" using le by simp
    have step: "scan_step strtod ctxt (Suc (n + length Y)) n (append_argv (Some ''--'' # Y) st)
                  = (True, append_argv (None # Y) st)"
      using len
      by (simp add: scan_step_def append_argv_def nth_append list_update_append char_at_def)
    have short: "scan_loop strtod ctxt n i stop st = st"
      using i by (subst scan_loop.simps) simp
    have "scan_loop strtod ctxt (Suc (n + length Y)) i stop (append_argv (Some ''--'' # Y) st)
            = scan_loop strtod ctxt (Suc (n + length Y)) (i + 1) True (append_argv (None # Y) st)"
      using i ns step by (subst scan_loop.simps) simp
    also have "\<dots> = append_argv (None # Y) st"
      by (subst scan_loop.simps) simp
    finally show ?thesis using short by simp
  qed
qed

text \<open>
  Claim C1 as stated fails in one point: the marker \<open>--\<close> itself is not left in the
  vector.  The scanning loop sets \<open>stopper_reached\<close> and then, like for every word that
  begins with a dash, sets the entry to \<open>NULL\<close>.
\<close>

theorem end_marker_counterexample:
  "Some ''--'' \<notin> set (words_of (dooshki_args_parse strtod_none cli_args_context 3
              [Some ''demo'', Some ''--'', Some ''-a''] Map.empty))"
  by code_simp

text \<open>
  Claim C1, amended.  For a command line whose first word \<open>--\<close> comes after the words
  \<open>pre\<close> and before the words \<open>post\<close>, scanning stops at that word: the call returns the
  same value, leaves the same storage and prints the same messages as for the command line
  that ends before the \<open>--\<close>, and the vector it leaves is the one left for that command
  line followed by all the words of \<open>post\<close>, unchanged and in order, also when they begin
  with a dash.  The \<open>--\<close> itself is removed.
\<close>

theorem end_marker:
  assumes "''--'' \<notin> set pre" and "\<forall>t \<in> set pre. c_string t"
  shows "(let r1 = dooshki_args_parse strtod args_ctxt (length (prog # pre @ ''--'' # post))
                     (map Some (prog # pre @ ''--'' # post)) m;
              r0 = dooshki_args_parse strtod args_ctxt (length (prog # pre))
                     (map Some (prog # pre)) m
          in ret r1 = ret r0 \<and> res_mem r1 = res_mem r0 \<and> res_err r1 = res_err r0
             \<and> words_of r1 = words_of r0 @ map Some post)"
proof -
  let ?n = "length (prog # pre)"
  let ?Y = "map Some post"
  let ?s0 = "initial_state (map Some (prog # pre)) m"
  let ?st = "scan_loop strtod args_ctxt ?n 1 False ?s0"
  have init: "initial_state (map Some (prog # pre @ ''--'' # post)) m
                = append_argv (Some ''--'' # ?Y) ?s0"
    by (simp add: initial_state_def append_argv_def)
  have nostop: "\<forall>j t. 1 \<le> j \<longrightarrow> j < ?n \<longrightarrow> argv ?s0 ! j = Some t \<longrightarrow> \<not> is_stopper t"
  proof (intro allI impI)
    fix j t assume a: "1 \<le> j" "j < ?n" "argv ?s0 ! j = Some t"
    then have "t \<in> set pre"
      by (cases j) (auto simp: initial_state_def)
    then show "\<not> is_stopper t"
      using assms is_stopper_c_string by blast
  qed
  have sim: "scan_loop strtod args_ctxt (Suc (?n + length ?Y)) 1 False (append_argv (Some ''--'' # ?Y) ?s0)
               = append_argv (None # ?Y) ?st"
    by (rule scan_loop_marker[OF _ _ _ _ nostop]) (simp_all add: initial_state_def)
  have nl: "nulls_only (map Some (prog # pre)) (argv ?st)"
    using scan_loop_nulls[of 1 ?s0 strtod args_ctxt ?n False] by (simp add: initial_state_def)
  obtain r where av: "argv ?st = Some prog # r" and lr: "length r = length pre"
    using nulls_only_words(1,3)[OF nl] by (cases "argv ?st") auto
  have d0: "deflate_args_list ?n (Some prog # r)
             = (Suc (length (filter (\<lambda>x. x \<noteq> None) r)),
                Some prog # filter (\<lambda>x. x \<noteq> None) r
                  @ replicate (length (filter (\<lambda>x. x = None) r)) None)"
    using deflate_loop_append[of "[Some prog]" r] lr
    by (simp add: deflate_args_list_def)
  have d1: "deflate_args_list (Suc (?n + length ?Y)) ((Some prog # r) @ None # ?Y)
             = (Suc (length (filter (\<lambda>x. x \<noteq> None) r) + length post),
                Some prog # filter (\<lambda>x. x \<noteq> None) r @ ?Y
                  @ replicate (Suc (length (filter (\<lambda>x. x = None) r))) None)"
    using deflate_loop_append[of "[Some prog]" "r @ None # ?Y"] lr
    by (simp add: deflate_args_list_def filter_map comp_def)
  show ?thesis
    unfolding Let_def dooshki_args_parse_def init
    using sim d0 d1 av
    by (simp add: append_argv_def words_of_def outcome_def)
qed

theorem end_marker_witness:
  "''--'' \<notin> set [''-l'', ''A''] \<and> list_all c_string [''-l'', ''A'']
   \<and> (let r1 = dooshki_args_parse strtod_none cli_args_context
                   (length (''demo'' # [''-l'', ''A''] @ ''--'' # [''-a'', ''x'']))
                   (map Some (''demo'' # [''-l'', ''A''] @ ''--'' # [''-a'', ''x''])) Map.empty;
            r0 = dooshki_args_parse strtod_none cli_args_context
                   (length (''demo'' # [''-l'', ''A'']))
                   (map Some (''demo'' # [''-l'', ''A''])) Map.empty
        in ret r1 = ret r0 \<and> res_mem r1 = res_mem r0 \<and> res_err r1 = res_err r0
           \<and> words_of r1 = words_of r0 @ map Some [''-a'', ''x''])"
proof -
  have h1: "''--'' \<notin> set [''-l'', ''A'']" by simp
  have h2: "\<forall>t \<in> set [''-l'', ''A'']. c_string t" by (simp add: c_string_def)
  show ?thesis
    using h1 h2
      end_marker [OF h1 h2, where strtod = strtod_none and args_ctxt = cli_args_context
        and prog = "''demo''" and post = "[''-a'', ''x'']" and m = Map.empty]
    by (simp add: list_all_iff)
qed

lemma end_marker_example:
  "words_of (dooshki_args_parse strtod_none cli_args_context 6
      [Some ''demo'', Some ''-l'', Some ''A'', Some ''--'', Some ''-a'', Some ''x''] Map.empty)
     = [Some ''demo'', Some ''-a'', Some ''x'']"
  by code_simp

section \<open>Clusters of short options that take values\<close>

lemma short_opt_loop_find:
  "short_opt_loop strtod argc i c tbl st =
     (case first_short_match tbl c of
        None \<Rightarrow> unrecognized_short c st
      | Some d \<Rightarrow> short_opt_found strtod argc i d st)"
  by (induction tbl)
     (auto simp: first_short_match_def table_members_def is_terminator_def
        short_name_matches_def split: option.splits)

lemma missing_short_argv_upd [simp]:
  "missing_short d (st\<lparr>argv := A\<rparr>) = (missing_short d st)\<lparr>argv := A\<rparr>"
  by (simp add: missing_short_def)

lemma take_short_argv_upd [simp]:
  "take_short strtod d a (st\<lparr>argv := A\<rparr>) = (take_short strtod d a st)\<lparr>argv := A\<rparr>"
  by (simp add: take_short_def)

lemma short_value_char:
  assumes "first_short_match tbl c = Some d" and "takes_value d"
  shows "short_opt_loop strtod argc i c tbl st =
           (case long_arg_loop argc (Suc i) (argv st) of
              (None, av) \<Rightarrow> (missing_short d st)\<lparr>argv := av\<rparr>
            | (Some a, av) \<Rightarrow> (take_short strtod d a st)\<lparr>argv := av\<rparr>)"
  using assms
  by (simp add: short_opt_loop_find short_opt_found_def takes_value_def Let_def
      short_arg_loop_eq missing_short_def take_short_def split: prod.splits option.splits)


lemma initial_state_base: "initial_state av m = (initial_state [] m)\<lparr>argv := av\<rparr>"
  by (simp add: initial_state_def)

lemma cluster_step:
  assumes f: "first_short_match (opt_desc ctxt) f = Some df" "takes_value df" "table_char f"
    and d: "first_short_match (opt_desc ctxt) d = Some dd" "takes_value dd" "table_char d"
    and A: "A \<noteq> ''--''"
  shows "scan_step strtod ctxt 4 1 (S\<lparr>argv := [Some prog, Some [CHR ''-'', f, d], Some A, Some B]\<rparr>)
     = (False,
        (if B = ''--'' then missing_short dd (take_short strtod df A S)
         else take_short strtod dd B (take_short strtod df A S))
        \<lparr>argv := [Some prog, None, None, if B = ''--'' then Some B else None]\<rparr>)"
  using f(3) d(3) A
  by (simp add: scan_step_def process_short_opts_def short_chars_loop.simps table_char_def
      short_value_char[OF f(1,2)] short_value_char[OF d(1,2)] long_arg_loop.simps strcmp_eq)

text \<open>
  The two command lines alone: both calls agree and consume every word after the program
  name.
\<close>

lemma cluster_alone:
  assumes f: "first_short_match (opt_desc args_ctxt) f = Some df" "takes_value df" "table_char f"
    and d: "first_short_match (opt_desc args_ctxt) d = Some dd" "takes_value dd" "table_char d"
    and A: "A \<noteq> ''--''"
  shows "(let r1 = dooshki_args_parse strtod args_ctxt 4
                     [Some prog, Some [CHR ''-'', f, d], Some A, Some B] m;
              r2 = dooshki_args_parse strtod args_ctxt 5
                     [Some prog, Some [CHR ''-'', f], Some A, Some [CHR ''-'', d], Some B] m
          in ret r1 = ret r2 \<and> res_mem r1 = res_mem r2 \<and> res_err r1 = res_err r2
             \<and> words_of r1 = [Some prog] \<and> words_of r2 = [Some prog]
             \<and> res_argc r1 = res_argc r2)"
proof -
  let ?S = "initial_state [] m"
  let ?F = "if B = ''--'' then missing_short dd (take_short strtod df A ?S)
            else take_short strtod dd B (take_short strtod df A ?S)"
  have s1: "scan_loop strtod args_ctxt 4 1 False
              (initial_state [Some prog, Some [CHR ''-'', f, d], Some A, Some B] m)
            = ?F\<lparr>argv := [Some prog, None, None, None]\<rparr>"
    using f(3) d(3) A
    by (simp add: initial_state_base[of "_ # _"] scan_loop.simps
        scan_step_def process_short_opts_def short_chars_loop.simps table_char_def
        short_value_char[OF f(1,2)] short_value_char[OF d(1,2)] long_arg_loop.simps strcmp_eq
        char_at_def)
  have s2: "scan_loop strtod args_ctxt 5 1 False
              (initial_state [Some prog, Some [CHR ''-'', f], Some A, Some [CHR ''-'', d], Some B] m)
            = ?F\<lparr>argv := [Some prog, None, None, None, None]\<rparr>"
    using f(3) d(3) A
    by (simp add: initial_state_base[of "_ # _"] scan_loop.simps
        scan_step_def process_short_opts_def short_chars_loop.simps table_char_def
        short_value_char[OF f(1,2)] short_value_char[OF d(1,2)] long_arg_loop.simps strcmp_eq
        char_at_def)
  have d1: "deflate_args_list 4 [Some prog, None, None, None] = (1, [Some prog, None, None, None])"
    by (simp add: deflate_args_list_def deflate_loop.simps pull_loop.simps)
  have d2: "deflate_args_list 5 [Some prog, None, None, None, None]
              = (1, [Some prog, None, None, None, None])"
    by (simp add: deflate_args_list_def deflate_loop.simps pull_loop.simps)
  show ?thesis
    unfolding dooshki_args_parse_def Let_def s1 s2
    by (simp add: d1 d2 outcome_def words_of_def)
qed

subsection \<open>Entries in front of the scanned part do not matter\<close>

lemma long_arg_loop_prepend:
  "long_arg_loop (length P + n) (length P + j) (P @ av)
     = (fst (long_arg_loop n j av), P @ snd (long_arg_loop n j av))"
proof (induction n j av rule: long_arg_loop.induct)
  case (1 n j av)
  show ?case
  proof (cases "j < n")
    case True
    show ?thesis
    proof (cases "av ! j")
      case None
      then show ?thesis
        using 1 True
        by (subst long_arg_loop.simps[of "length P + n"], subst (2 3) long_arg_loop.simps)
           (simp add: add.assoc)
    next
      case (Some t)
      then show ?thesis
        using True
        by (subst long_arg_loop.simps[of "length P + n"], subst (2 3) long_arg_loop.simps)
           (simp add: list_update_append)
    qed
  next
    case False
    then show ?thesis
      by (subst long_arg_loop.simps[of "length P + n"], subst (2 3) long_arg_loop.simps) simp
  qed
qed

lemma long_opt_found_prepend:
  "long_opt_found strtod (length P + n) (length P + i) d argument (prepend_argv P st)
     = prepend_argv P (long_opt_found strtod n i d argument st)"
proof -
  have l: "long_arg_loop (length P + n) (Suc (length P + i)) (P @ argv st)
     = (fst (long_arg_loop n (Suc i) (argv st)), P @ snd (long_arg_loop n (Suc i) (argv st)))"
    using long_arg_loop_prepend[of P n "Suc i" "argv st"] by simp
  show ?thesis
    by (cases "opt_type d")
       (simp_all add: long_opt_found_def prepend_argv_def Let_def split_beta l
          split: option.splits)
qed

lemma long_opt_loop_prepend:
  "long_opt_loop strtod (length P + n) (length P + i) s k argument tbl (prepend_argv P st)
     = prepend_argv P (long_opt_loop strtod n i s k argument tbl st)"
  by (induction tbl)
     (simp_all add: long_opt_found_prepend split: option.splits,
      simp_all add: prepend_argv_def)

lemma process_long_opt_prepend:
  "process_long_opt strtod ctxt (length P + n) (length P + i) (prepend_argv P st)
     = prepend_argv P (process_long_opt strtod ctxt n i st)"
proof -
  have t: "argv (prepend_argv P st) ! (length P + i) = argv st ! i"
    by (simp add: prepend_argv_def)
  show ?thesis
    unfolding process_long_opt_def t Let_def long_opt_loop_prepend
    by (simp add: prepend_argv_def)
qed

lemma short_opt_found_prepend:
  "short_opt_found strtod (length P + n) (length P + i) d (prepend_argv P st)
     = prepend_argv P (short_opt_found strtod n i d st)"
proof -
  have l: "long_arg_loop (length P + n) (Suc (length P + i)) (P @ argv st)
     = (fst (long_arg_loop n (Suc i) (argv st)), P @ snd (long_arg_loop n (Suc i) (argv st)))"
    using long_arg_loop_prepend[of P n "Suc i" "argv st"] by simp
  show ?thesis
    by (cases "opt_type d")
       (simp_all add: short_opt_found_def prepend_argv_def Let_def split_beta l short_arg_loop_eq
          split: option.splits)
qed

lemma short_opt_loop_prepend:
  "short_opt_loop strtod (length P + n) (length P + i) c tbl (prepend_argv P st)
     = prepend_argv P (short_opt_loop strtod n i c tbl st)"
  by (induction tbl)
     (simp_all add: short_opt_found_prepend split: option.splits,
      simp_all add: prepend_argv_def)

lemma short_chars_loop_prepend:
  "short_chars_loop strtod ctxt (length P + n) (length P + i) s k (prepend_argv P st)
     = prepend_argv P (short_chars_loop strtod ctxt n i s k st)"
proof (induction strtod ctxt n i s k st rule: short_chars_loop.induct)
  case (1 strtod ctxt n i s k st)
  show ?case
  proof (cases "char_at s k \<noteq> CHR 0x00")
    case True
    let ?st1 = "(if char_at s k = CHR ''h'' then set_show_help st
           else if char_at s k = CHR ''V'' then set_show_version st
           else short_opt_loop strtod n i (char_at s k) (opt_desc ctxt) st)"
    let ?st1' = "(if char_at s k = CHR ''h'' then set_show_help (prepend_argv P st)
           else if char_at s k = CHR ''V'' then set_show_version (prepend_argv P st)
           else short_opt_loop strtod (length P + n) (length P + i) (char_at s k) (opt_desc ctxt)
                  (prepend_argv P st))"
    have e: "?st1' = prepend_argv P ?st1"
      by (simp add: short_opt_loop_prepend) (simp add: prepend_argv_def)
    have "short_chars_loop strtod ctxt (length P + n) (length P + i) s (k + 1) (prepend_argv P ?st1)
            = prepend_argv P (short_chars_loop strtod ctxt n i s (k + 1) ?st1)"
      using 1[OF True] .
    then show ?thesis
      using True e
      by (subst short_chars_loop.simps[of strtod ctxt "length P + n"],
          subst short_chars_loop.simps[of strtod ctxt n]) simp
  next
    case False
    then show ?thesis
      by (subst short_chars_loop.simps[of strtod ctxt "length P + n"],
          subst short_chars_loop.simps[of strtod ctxt n]) simp
  qed
qed

lemma scan_step_prepend:
  "scan_step strtod ctxt (length P + n) (length P + i) (prepend_argv P st)
     = (fst (scan_step strtod ctxt n i st), prepend_argv P (snd (scan_step strtod ctxt n i st)))"
proof -
  have t: "argv (prepend_argv P st) ! (length P + i) = argv st ! i"
    by (simp add: prepend_argv_def)
  have s: "process_short_opts strtod ctxt (length P + n) (length P + i) (prepend_argv P st)
             = prepend_argv P (process_short_opts strtod ctxt n i st)"
    unfolding process_short_opts_def t by (rule short_chars_loop_prepend)
  show ?thesis
    unfolding scan_step_def t
    by (simp add: process_long_opt_prepend s split: option.splits)
       (simp add: prepend_argv_def list_update_append)
qed

lemma scan_loop_prepend:
  "scan_loop strtod ctxt (length P + n) (length P + i) stop (prepend_argv P st)
     = prepend_argv P (scan_loop strtod ctxt n i stop st)"
proof (induction strtod ctxt n i stop st rule: scan_loop.induct)
  case (1 strtod ctxt n i stop st)
  show ?case
  proof (cases "i < n \<and> \<not> stop")
    case True
    obtain s1 st1 where st: "scan_step strtod ctxt n i st = (s1, st1)"
      by (cases "scan_step strtod ctxt n i st")
    have ih: "scan_loop strtod ctxt (length P + n) (length P + (i + 1)) s1 (prepend_argv P st1)
                = prepend_argv P (scan_loop strtod ctxt n (i + 1) s1 st1)"
      using 1[OF True st[symmetric]] by simp
    have long: "scan_step strtod ctxt (length P + n) (length P + i) (prepend_argv P st)
                  = (s1, prepend_argv P st1)"
      using scan_step_prepend[of strtod ctxt P n i st] st by simp
    show ?thesis
      using True st long ih
      by (subst scan_loop.simps[of strtod ctxt n i stop st],
          subst scan_loop.simps[of strtod ctxt "length P + n" "length P + i" stop
                  "prepend_argv P st"]) simp
  next
    case False
    then show ?thesis
      by (subst scan_loop.simps[of strtod ctxt n i stop st],
          subst scan_loop.simps[of strtod ctxt "length P + n" "length P + i" stop
                  "prepend_argv P st"]) auto
  qed
qed


lemma scan_loop_length:
  "length (argv (scan_loop strtod ctxt n i stop st)) = length (argv st)"
proof -
  have "nulls_only (argv (prepend_argv [None] st))
          (argv (scan_loop strtod ctxt (length [None :: string option] + n)
                   (length [None :: string option] + i) stop (prepend_argv [None] st)))"
    by (rule scan_loop_nulls) simp
  then show ?thesis
    unfolding scan_loop_prepend by (simp add: nulls_only_def prepend_argv_def)
qed

lemma deflate_after_nulls:
  assumes "length X = n" and "\<forall>x \<in> set N. x = None"
  shows "deflate_args_list (Suc (length N + n)) (Some prog # N @ X)
           = (Suc (length (filter (\<lambda>x. x \<noteq> None) X)),
              Some prog # filter (\<lambda>x. x \<noteq> None) X
                @ replicate (length N + length (filter (\<lambda>x. x = None) X)) None)"
proof -
  have a: "filter (\<lambda>x. x \<noteq> None) N = []" using assms(2) by (induction N) auto
  have b: "length (filter (\<lambda>x. x = None) N) = length N" using assms(2) by (induction N) auto
  show ?thesis
    using deflate_loop_append[of "[Some prog]" "N @ X"] assms(1) a b
    by (simp add: deflate_args_list_def)
qed

text \<open>
  Claim C6 as stated fails when \<open>A\<close> is the end marker \<open>--\<close>: the search for a value stops
  at the marker without taking it.  In \<open>-lc -- 5\<close> both options of the cluster are
  processed and both miss their value; in \<open>-l -- -c 5\<close> the scan stops at the marker, so
  \<open>-c\<close> is never processed and stays in the vector.  The messages, the found flag of
  \<open>-c\<close> and the words consumed differ.
\<close>

theorem cluster_marker_counterexample:
  "(let r1 = dooshki_args_parse strtod_none cli_args_context 4
                 [Some ''demo'', Some ''-lc'', Some ''--'', Some ''5''] Map.empty;
        r2 = dooshki_args_parse strtod_none cli_args_context 5
                 [Some ''demo'', Some ''-l'', Some ''--'', Some ''-c'', Some ''5''] Map.empty
    in words_of r1 = [Some ''demo'', Some ''5'']
       \<and> words_of r2 = [Some ''demo'', Some ''-c'', Some ''5'']
       \<and> words_of r1 \<noteq> words_of r2
       \<and> res_mem r1 6 = Some (Char_val 1) \<and> res_mem r2 6 = None
       \<and> res_err r1 = [Missing_argument ''-'' ''l'', Missing_argument ''-'' ''c'']
       \<and> res_err r2 = [Missing_argument ''-'' ''l''])"
  by code_simp

text \<open>
  Claim C6, amended.  Let \<open>f\<close> and \<open>d\<close> be characters that the table resolves to options
  taking a value, and let \<open>A\<close> be a word other than the end marker.  Then the command lines
  \<open>-fd A B\<close> and \<open>-f A -d B\<close>, each followed by the same further words, give the same
  return value, the same storage (destinations and found flags), the same messages and
  the same remaining words: in the cluster each character that needs a value takes the
  next entry that is still there, so the same words are consumed.
\<close>

theorem cluster_equals_separate:
  assumes f: "first_short_match (opt_desc args_ctxt) f = Some df" "takes_value df" "table_char f"
    and d: "first_short_match (opt_desc args_ctxt) d = Some dd" "takes_value dd" "table_char d"
    and A: "A \<noteq> ''--''"
  shows "(let r1 = dooshki_args_parse strtod args_ctxt (4 + length rest)
                     ([Some prog, Some [CHR ''-'', f, d], Some A, Some B] @ map Some rest) m;
              r2 = dooshki_args_parse strtod args_ctxt (5 + length rest)
                     ([Some prog, Some [CHR ''-'', f], Some A, Some [CHR ''-'', d], Some B]
                        @ map Some rest) m
          in ret r1 = ret r2 \<and> res_mem r1 = res_mem r2 \<and> res_err r1 = res_err r2
             \<and> words_of r1 = words_of r2 \<and> res_argc r1 = res_argc r2)"
proof -
  let ?S = "initial_state [] m"
  let ?R = "map Some rest"
  let ?n = "length rest"
  let ?P1 = "[Some prog, None, None, None]"
  let ?P2 = "[Some prog, None, None, None, None]"
  let ?c1 = "[Some prog, Some [CHR ''-'', f, d], Some A, Some B] @ ?R"
  let ?c2 = "[Some prog, Some [CHR ''-'', f], Some A, Some [CHR ''-'', d], Some B] @ ?R"
  note ev = scan_step_def process_short_opts_def short_chars_loop.simps table_char_def
        short_value_char[OF f(1,2)] short_value_char[OF d(1,2)] long_arg_loop.simps strcmp_eq
        char_at_def
  have "\<exists>T X. length X = ?n
          \<and> scan_loop strtod args_ctxt (4 + ?n) 1 False (initial_state ?c1 m) = T\<lparr>argv := ?P1 @ X\<rparr>
          \<and> scan_loop strtod args_ctxt (5 + ?n) 1 False (initial_state ?c2 m) = T\<lparr>argv := ?P2 @ X\<rparr>"
  proof (cases "B = ''--''")
    case True
    let ?T = "missing_short dd (take_short strtod df A ?S)"
    have s1: "scan_loop strtod args_ctxt (4 + ?n) 1 False (initial_state ?c1 m)
                = ?T\<lparr>argv := ?P1 @ ?R\<rparr>"
      using f(3) d(3) A True
      by (simp add: initial_state_base[of "_ # _"] scan_loop.simps ev)
    have s2: "scan_loop strtod args_ctxt (5 + ?n) 1 False (initial_state ?c2 m)
                = ?T\<lparr>argv := ?P2 @ ?R\<rparr>"
      using f(3) d(3) A True
      by (simp add: initial_state_base[of "_ # _"] scan_loop.simps ev)
    show ?thesis using s1 s2 by (intro exI[of _ ?T] exI[of _ ?R]) simp
  next
    case False
    let ?F = "take_short strtod dd B (take_short strtod df A ?S)"
    let ?X = "scan_loop strtod args_ctxt ?n 0 False (?F\<lparr>argv := ?R\<rparr>)"
    let ?G = "take_short strtod df A ?S"
    let ?M = "?G\<lparr>argv := [Some prog, None, None, Some [CHR ''-'', d], Some B] @ ?R\<rparr>"
    have a1: "scan_step strtod args_ctxt (4 + ?n) 1 (initial_state ?c1 m)
                = (False, ?F\<lparr>argv := ?P1 @ ?R\<rparr>)"
      using f(3) d(3) A False by (simp add: initial_state_base[of "_ # _"] ev)
    have a2: "scan_step strtod args_ctxt (4 + ?n) (1 + 1) (?F\<lparr>argv := ?P1 @ ?R\<rparr>)
                = (False, ?F\<lparr>argv := ?P1 @ ?R\<rparr>)"
      by (simp add: scan_step_def)
    have a3: "scan_step strtod args_ctxt (4 + ?n) (1 + 1 + 1) (?F\<lparr>argv := ?P1 @ ?R\<rparr>)
                = (False, ?F\<lparr>argv := ?P1 @ ?R\<rparr>)"
      by (simp add: scan_step_def)
    have "scan_loop strtod args_ctxt (4 + ?n) 1 False (initial_state ?c1 m)
            = scan_loop strtod args_ctxt (4 + ?n) (1 + 1) False (?F\<lparr>argv := ?P1 @ ?R\<rparr>)"
      by (subst scan_loop.simps, subst a1) simp
    also have "\<dots> = scan_loop strtod args_ctxt (4 + ?n) (1 + 1 + 1) False (?F\<lparr>argv := ?P1 @ ?R\<rparr>)"
      by (subst scan_loop.simps, subst a2) simp
    also have "\<dots> = scan_loop strtod args_ctxt (4 + ?n) (1 + 1 + 1 + 1) False (?F\<lparr>argv := ?P1 @ ?R\<rparr>)"
      by (subst scan_loop.simps, subst a3) simp
    also have "\<dots> = scan_loop strtod args_ctxt (length ?P1 + ?n) (length ?P1 + 0) False
                         (prepend_argv ?P1 (?F\<lparr>argv := ?R\<rparr>))"
      by (simp add: prepend_argv_def eval_nat_numeral)
    also have "\<dots> = prepend_argv ?P1 ?X"
      by (rule scan_loop_prepend)
    finally have s1: "scan_loop strtod args_ctxt (4 + ?n) 1 False (initial_state ?c1 m)
                        = ?X\<lparr>argv := ?P1 @ argv ?X\<rparr>"
      by (simp add: prepend_argv_def)
    have b1: "scan_step strtod args_ctxt (5 + ?n) 1 (initial_state ?c2 m) = (False, ?M)"
      using f(3) d(3) A False by (simp add: initial_state_base[of "_ # _"] ev)
    have b2: "scan_step strtod args_ctxt (5 + ?n) (1 + 1) ?M = (False, ?M)"
      by (simp add: scan_step_def)
    have b3: "scan_step strtod args_ctxt (5 + ?n) (1 + 1 + 1) ?M = (False, ?F\<lparr>argv := ?P2 @ ?R\<rparr>)"
      using f(3) d(3) A False by (simp add: ev take_short_def[symmetric])
    have b4: "scan_step strtod args_ctxt (5 + ?n) (1 + 1 + 1 + 1) (?F\<lparr>argv := ?P2 @ ?R\<rparr>)
                = (False, ?F\<lparr>argv := ?P2 @ ?R\<rparr>)"
      by (simp add: scan_step_def)
    have "scan_loop strtod args_ctxt (5 + ?n) 1 False (initial_state ?c2 m)
            = scan_loop strtod args_ctxt (5 + ?n) (1 + 1) False ?M"
      by (subst scan_loop.simps, subst b1) simp
    also have "\<dots> = scan_loop strtod args_ctxt (5 + ?n) (1 + 1 + 1) False ?M"
      by (subst scan_loop.simps, subst b2) simp
    also have "\<dots> = scan_loop strtod args_ctxt (5 + ?n) (1 + 1 + 1 + 1) False (?F\<lparr>argv := ?P2 @ ?R\<rparr>)"
      by (subst scan_loop.simps, subst b3) simp
    also have "\<dots> = scan_loop strtod args_ctxt (5 + ?n) (1 + 1 + 1 + 1 + 1) False (?F\<lparr>argv := ?P2 @ ?R\<rparr>)"
      by (subst scan_loop.simps, subst b4) simp
    also have "\<dots> = scan_loop strtod args_ctxt (length ?P2 + ?n) (length ?P2 + 0) False
                         (prepend_argv ?P2 (?F\<lparr>argv := ?R\<rparr>))"
      by (simp add: prepend_argv_def eval_nat_numeral)
    also have "\<dots> = prepend_argv ?P2 ?X"
      by (rule scan_loop_prepend)
    finally have s2: "scan_loop strtod args_ctxt (5 + ?n) 1 False (initial_state ?c2 m)
                        = ?X\<lparr>argv := ?P2 @ argv ?X\<rparr>"
      by (simp add: prepend_argv_def)
    have len: "length (argv ?X) = ?n" by (simp add: scan_loop_length)
    show ?thesis using s1 s2 len by (intro exI[of _ ?X] exI[of _ "argv ?X"]) simp
  qed
  then obtain T X where len: "length X = ?n"
    and s1: "scan_loop strtod args_ctxt (4 + ?n) 1 False (initial_state ?c1 m) = T\<lparr>argv := ?P1 @ X\<rparr>"
    and s2: "scan_loop strtod args_ctxt (5 + ?n) 1 False (initial_state ?c2 m) = T\<lparr>argv := ?P2 @ X\<rparr>"
    by blast
  have d1: "\<exists>Z. deflate_args_list (4 + ?n) (?P1 @ X)
              = (Suc (length (filter (\<lambda>x. x \<noteq> None) X)),
                 Some prog # filter (\<lambda>x. x \<noteq> None) X @ Z)"
    using deflate_after_nulls[OF len, of "[None, None, None]" prog]
    by (simp add: eval_nat_numeral)
  have d2: "\<exists>Z. deflate_args_list (5 + ?n) (?P2 @ X)
              = (Suc (length (filter (\<lambda>x. x \<noteq> None) X)),
                 Some prog # filter (\<lambda>x. x \<noteq> None) X @ Z)"
    using deflate_after_nulls[OF len, of "[None, None, None, None]" prog]
    by (simp add: eval_nat_numeral)
  show ?thesis
    unfolding dooshki_args_parse_def Let_def s1 s2
    using d1 d2 by (auto simp: outcome_def words_of_def)
qed

theorem cluster_equals_separate_witness:
  "first_short_match (opt_desc cli_args_context) CHR ''l'' = Some (cli_options ! 2)
   \<and> takes_value (cli_options ! 2) \<and> table_char CHR ''l''
   \<and> first_short_match (opt_desc cli_args_context) CHR ''c'' = Some (cli_options ! 3)
   \<and> takes_value (cli_options ! 3) \<and> table_char CHR ''c'' \<and> ''name'' \<noteq> ''--''
   \<and> (let r1 = dooshki_args_parse strtod_none cli_args_context (4 + length [''x.txt'', ''-a''])
                     ([Some ''demo'', Some [CHR ''-'', CHR ''l'', CHR ''c''], Some ''name'', Some ''12'']
                        @ map Some [''x.txt'', ''-a'']) Map.empty;
            r2 = dooshki_args_parse strtod_none cli_args_context (5 + length [''x.txt'', ''-a''])
                     ([Some ''demo'', Some [CHR ''-'', CHR ''l''], Some ''name'',
                       Some [CHR ''-'', CHR ''c''], Some ''12''] @ map Some [''x.txt'', ''-a''])
                     Map.empty
        in ret r1 = ret r2 \<and> res_mem r1 = res_mem r2 \<and> res_err r1 = res_err r2
           \<and> words_of r1 = words_of r2 \<and> res_argc r1 = res_argc r2)"
proof -
  have f1: "first_short_match (opt_desc cli_args_context) CHR ''l'' = Some (cli_options ! 2)"
    by (simp add: first_short_match_def table_members_def is_terminator_def
        short_name_matches_def cli_args_context_def cli_options_def)
  have f2: "takes_value (cli_options ! 2)" by (simp add: takes_value_def cli_options_def)
  have f3: "table_char CHR ''l''" by (simp add: table_char_def)
  have d1: "first_short_match (opt_desc cli_args_context) CHR ''c'' = Some (cli_options ! 3)"
    by (simp add: first_short_match_def table_members_def is_terminator_def
        short_name_matches_def cli_args_context_def cli_options_def)
  have d2: "takes_value (cli_options ! 3)" by (simp add: takes_value_def cli_options_def)
  have d3: "table_char CHR ''c''" by (simp add: table_char_def)
  have a: "''name'' \<noteq> ''--''" by simp
  show ?thesis
    using f1 f2 f3 d1 d2 d3 a
      cluster_equals_separate [OF f1 f2 f3 d1 d2 d3 a, where strtod = strtod_none
        and rest = "[''x.txt'', ''-a'']" and prog = "''demo''" and B = "''12''" and m = Map.empty]
    by simp
qed

lemma cluster_example:
  "(let r = dooshki_args_parse strtod_none cli_args_context 4
              [Some ''demo'', Some ''-lc'', Some ''name'', Some ''12''] Map.empty
    in res_mem r 4 = Some (Str_val ''name'') \<and> res_mem r 5 = Some (ULong_val 12)
       \<and> res_mem r 6 = Some (Char_val 1) \<and> ret r = DOOSHKI_ARGS_PARSE_OK)"
  by code_simp

section \<open>The found flag of an option\<close>

lemma run_callback_mem:
  "mem (snd (run_callback d arg p n st))
     = snd (callback d arg (opt_storage d) p n (callback_data d) (mem st))"
  by (simp add: run_callback_def split_beta)

lemma process_opt_arg_keeps:
  assumes "leaves_flag a d" and "mem st a = Some (Char_val 1)"
  shows "mem (snd (process_opt_arg strtod d l s st)) a = Some (Char_val 1)"
  using assms
  by (cases "opt_type d")
     (simp_all add: process_opt_arg_def Let_def leaves_flag_def process_str_arg_def
        process_uint_arg_def process_int_arg_def process_float_arg_def split_beta
        run_callback_mem)

lemma convert_arg_keeps:
  assumes "leaves_flag a d" and "mem st a = Some (Char_val 1)"
  shows "mem (convert_arg strtod d l s st) a = Some (Char_val 1)"
  using process_opt_arg_keeps[OF assms] by (simp add: convert_arg_def split_beta)

lemma mark_found_sets: "opt_found d = Some a \<Longrightarrow> mem (mark_found d st) a = Some (Char_val 1)"
  by (simp add: mark_found_def)

lemma mark_found_keeps:
  "mem st a = Some (Char_val 1) \<Longrightarrow> mem (mark_found d st) a = Some (Char_val 1)"
  by (simp add: mark_found_def split: option.splits)

lemma long_opt_found_flag:
  assumes lf: "leaves_flag a d"
    and m: "mem st a = Some (Char_val 1) \<or> opt_found d = Some a"
  shows "mem (long_opt_found strtod argc i d argument st) a = Some (Char_val 1)"
proof -
  have m1: "mem (mark_found d st) a = Some (Char_val 1)"
    using m mark_found_sets mark_found_keeps by blast
  have c: "\<And>l s st'. mem st' a = Some (Char_val 1)
             \<Longrightarrow> mem (convert_arg strtod d l s st') a = Some (Char_val 1)"
    using convert_arg_keeps[OF lf] by blast
  have b: "opt_type d = DOOSHKI_OPT_BOOL \<or> opt_type d = DOOSHKI_OPT_NEGBOOL
             \<Longrightarrow> a \<noteq> opt_storage d"
    using lf by (auto simp: leaves_flag_def)
  have r: "\<And>arg p n st'. opt_type d = DOOSHKI_OPT_CB_NOARG \<Longrightarrow> mem st' a = Some (Char_val 1)
             \<Longrightarrow> mem (snd (run_callback d arg p n st')) a = Some (Char_val 1)"
    using lf by (simp add: leaves_flag_def run_callback_mem)
  show ?thesis
    using m1 b
    by (cases "opt_type d")
       (simp_all add: long_opt_found_def Let_def split_beta c r split: option.splits)
qed

lemma long_opt_loop_keeps:
  assumes "\<forall>d \<in> set tbl. leaves_flag a d" and "mem st a = Some (Char_val 1)"
  shows "mem (long_opt_loop strtod argc i s n argument tbl st) a = Some (Char_val 1)"
  using assms
  by (induction tbl) (auto simp: long_opt_found_flag split: option.splits)

lemma process_long_opt_keeps:
  assumes "\<forall>d \<in> set (opt_desc ctxt). leaves_flag a d" and "mem st a = Some (Char_val 1)"
  shows "mem (process_long_opt strtod ctxt argc i st) a = Some (Char_val 1)"
  using assms
  by (simp add: process_long_opt_def Let_def long_opt_loop_keeps set_show_help_def
      set_show_version_def)

lemma short_opt_found_flag:
  assumes lf: "leaves_flag a d"
    and m: "mem st a = Some (Char_val 1) \<or> opt_found d = Some a"
  shows "mem (short_opt_found strtod argc i d st) a = Some (Char_val 1)"
proof -
  have m1: "mem (mark_found d st) a = Some (Char_val 1)"
    using m mark_found_sets mark_found_keeps by blast
  have c: "\<And>l s st'. mem st' a = Some (Char_val 1)
             \<Longrightarrow> mem (convert_arg strtod d l s st') a = Some (Char_val 1)"
    using convert_arg_keeps[OF lf] by blast
  have b: "opt_type d = DOOSHKI_OPT_BOOL \<or> opt_type d = DOOSHKI_OPT_NEGBOOL
             \<Longrightarrow> a \<noteq> opt_storage d"
    using lf by (auto simp: leaves_flag_def)
  have r: "\<And>arg p n st'. opt_type d = DOOSHKI_OPT_CB_NOARG \<Longrightarrow> mem st' a = Some (Char_val 1)
             \<Longrightarrow> mem (snd (run_callback d arg p n st')) a = Some (Char_val 1)"
    using lf by (simp add: leaves_flag_def run_callback_mem)
  show ?thesis
    using m1 b
    by (cases "opt_type d")
       (simp_all add: short_opt_found_def Let_def split_beta c r split: option.splits)
qed

lemma short_opt_loop_keeps:
  assumes "\<forall>d \<in> set tbl. leaves_flag a d" and "mem st a = Some (Char_val 1)"
  shows "mem (short_opt_loop strtod argc i c tbl st) a = Some (Char_val 1)"
  using assms
  by (induction tbl) (auto simp: short_opt_found_flag split: option.splits)

lemma short_chars_loop_keeps:
  assumes "\<forall>d \<in> set (opt_desc ctxt). leaves_flag a d" and "mem st a = Some (Char_val 1)"
  shows "mem (short_chars_loop strtod ctxt argc i s k st) a = Some (Char_val 1)"
  using assms
proof (induction strtod ctxt argc i s k st rule: short_chars_loop.induct)
  case (1 strtod ctxt argc i s k st)
  show ?case
  proof (cases "char_at s k \<noteq> CHR 0x00")
    case True
    let ?st1 = "(if char_at s k = CHR ''h'' then set_show_help st
           else if char_at s k = CHR ''V'' then set_show_version st
           else short_opt_loop strtod argc i (char_at s k) (opt_desc ctxt) st)"
    have "mem ?st1 a = Some (Char_val 1)"
      using 1(2,3) by (simp add: short_opt_loop_keeps set_show_help_def set_show_version_def)
    then have "mem (short_chars_loop strtod ctxt argc i s (k + 1) ?st1) a = Some (Char_val 1)"
      using 1(1)[OF True 1(2)] by simp
    then show ?thesis using True by (subst short_chars_loop.simps) simp
  next
    case False
    then show ?thesis using 1(3) by (subst short_chars_loop.simps) simp
  qed
qed

lemma scan_step_keeps:
  assumes "\<forall>d \<in> set (opt_desc ctxt). leaves_flag a d" and "mem st a = Some (Char_val 1)"
  shows "mem (snd (scan_step strtod ctxt argc i st)) a = Some (Char_val 1)"
  using assms
  by (simp add: scan_step_def process_long_opt_keeps short_chars_loop_keeps
      process_short_opts_def split: option.splits)

lemma scan_loop_keeps:
  assumes "\<forall>d \<in> set (opt_desc ctxt). leaves_flag a d" and "mem st a = Some (Char_val 1)"
  shows "mem (scan_loop strtod ctxt argc i stop st) a = Some (Char_val 1)"
  using assms
proof (induction strtod ctxt argc i stop st rule: scan_loop.induct)
  case (1 strtod ctxt argc i stop st)
  show ?case
  proof (cases "i < argc \<and> \<not> stop")
    case True
    obtain s1 st1 where st: "scan_step strtod ctxt argc i st = (s1, st1)"
      by (cases "scan_step strtod ctxt argc i st")
    have "mem st1 a = Some (Char_val 1)"
      using scan_step_keeps[OF 1(2,3), of strtod argc i] st by simp
    then have "mem (scan_loop strtod ctxt argc (i + 1) s1 st1) a = Some (Char_val 1)"
      using 1(1)[OF True st[symmetric] 1(2)] by simp
    then show ?thesis using True st by (subst scan_loop.simps) simp
  next
    case False
    then show ?thesis using 1(3) by (subst scan_loop.simps) auto
  qed
qed

lemma first_long_match_member:
  "first_long_match tbl cand = Some d \<Longrightarrow> d \<in> set tbl"
  by (auto simp: first_long_match_def table_members_def find_Some_iff
      dest: set_takeWhileD nth_mem)

lemma first_short_match_member:
  "first_short_match tbl c = Some d \<Longrightarrow> d \<in> set tbl"
  by (auto simp: first_short_match_def table_members_def find_Some_iff
      dest: set_takeWhileD nth_mem)

lemma short_chars_loop_reach:
  assumes "c_string s" and "k < length s"
  shows "j \<le> k \<Longrightarrow> \<exists>st'. short_chars_loop strtod ctxt argc i s j st
                         = short_chars_loop strtod ctxt argc i s k st'"
proof (induction "k - j" arbitrary: j st)
  case 0
  then show ?case by auto
next
  case (Suc n)
  then have lt: "j < k" by simp
  then have jl: "j < length s" using assms(2) by simp
  then have "s ! j \<in> set s" by simp
  then have "s ! j \<noteq> CHR 0x00" using assms(1) unfolding c_string_def by metis
  then have "char_at s j \<noteq> CHR 0x00"
    using jl by (simp add: char_at_def)
  then have "\<exists>st1. short_chars_loop strtod ctxt argc i s j st
                 = short_chars_loop strtod ctxt argc i s (j + 1) st1"
    by (subst short_chars_loop.simps) auto
  then obtain st1 where
    "short_chars_loop strtod ctxt argc i s j st = short_chars_loop strtod ctxt argc i s (j + 1) st1"
    by blast
  moreover have "\<exists>st'. short_chars_loop strtod ctxt argc i s (j + 1) st1
                         = short_chars_loop strtod ctxt argc i s k st'"
    using Suc(1)[of "j + 1" st1] Suc(2) lt by simp
  ultimately show ?case by auto
qed

lemma long_occurrence_sets_flag:
  assumes sep: "\<forall>d' \<in> set (opt_desc ctxt). leaves_flag a d'"
    and tok: "argv st ! i = Some s" "char_at s 0 = CHR ''-''" "char_at s 1 = CHR ''-''"
             "char_at s 2 \<noteq> CHR 0x00" "s \<noteq> ''--help''" "s \<noteq> ''--version''"
    and d: "first_long_match (opt_desc ctxt) (candidate_name s) = Some d" "opt_found d = Some a"
  shows "mem (snd (scan_step strtod ctxt argc i st)) a = Some (Char_val 1)"
proof -
  have "leaves_flag a d" using sep first_long_match_member[OF d(1)] by blast
  then have "mem (long_opt_found strtod argc i d (inline_value s) st) a = Some (Char_val 1)"
    using long_opt_found_flag d(2) by blast
  then show ?thesis
    using tok d(1) by (simp add: scan_step_def process_long_opt_lookup[OF tok(1,5,6)])
qed

lemma short_occurrence_sets_flag:
  assumes sep: "\<forall>d' \<in> set (opt_desc ctxt). leaves_flag a d'"
    and tok: "argv st ! i = Some s" "char_at s 0 = CHR ''-''" "char_at s 1 \<noteq> CHR ''-''"
             "c_string s" "0 < k" "k < length s" "table_char (s ! k)"
    and d: "first_short_match (opt_desc ctxt) (s ! k) = Some d" "opt_found d = Some a"
  shows "mem (snd (scan_step strtod ctxt argc i st)) a = Some (Char_val 1)"
proof -
  have lf: "leaves_flag a d" using sep first_short_match_member[OF d(1)] by blast
  obtain st' where r: "short_chars_loop strtod ctxt argc i s 1 st
                         = short_chars_loop strtod ctxt argc i s k st'"
    using short_chars_loop_reach[OF tok(4,6), of 1] tok(5) by (metis One_nat_def Suc_leI)
  have c: "char_at s k = s ! k" using tok(6) by (simp add: char_at_def)
  have f: "mem (short_opt_found strtod argc i d st') a = Some (Char_val 1)"
    using short_opt_found_flag[OF lf] d(2) by blast
  have "short_chars_loop strtod ctxt argc i s k st'
          = short_chars_loop strtod ctxt argc i s (k + 1) (short_opt_found strtod argc i d st')"
    using tok(7) c d(1)
    by (subst short_chars_loop.simps) (simp add: table_char_def short_opt_loop_find)
  then have "mem (short_chars_loop strtod ctxt argc i s 1 st) a = Some (Char_val 1)"
    using r short_chars_loop_keeps[OF sep f] by simp
  then show ?thesis
    using tok(1,2,3) by (simp add: scan_step_def process_short_opts_def)
qed

text \<open>
  Claim C10.  Let the scanning loop of a call come to a word that is matched to a
  descriptor \<open>d\<close> whose \<open>opt_found\<close> is not \<open>NULL\<close>: a long option word whose candidate name
  is first matched by \<open>d\<close>, or a cluster of short options with a character first matched
  by \<open>d\<close>.  Then the flag is set to 1 before the value of the option is handled
  (\<open>mark_found\<close> is the first thing both routines do), it is 1 after the iteration for
  that word, and it is 1 in the storage the call leaves, whether or not the occurrence
  registers an error.  The flag must be an object of its own: no option of the table has
  it as destination, and the callbacks do not clear it.
\<close>

theorem found_flag_set:
  assumes sep: "\<forall>d' \<in> set (opt_desc args_ctxt). leaves_flag a d'"
    and reach: "scan_visits strtod args_ctxt argc (1, False, initial_state av m) (i, False, st)"
               "i < argc" "argv st ! i = Some s" "char_at s 0 = CHR ''-''"
    and d: "opt_found d = Some a"
    and form:
      "(char_at s 1 = CHR ''-'' \<and> char_at s 2 \<noteq> CHR 0x00 \<and> s \<noteq> ''--help'' \<and> s \<noteq> ''--version''
          \<and> first_long_match (opt_desc args_ctxt) (candidate_name s) = Some d)
       \<or> (char_at s 1 \<noteq> CHR ''-'' \<and> c_string s \<and> 0 < k \<and> k < length s \<and> table_char (s ! k)
          \<and> first_short_match (opt_desc args_ctxt) (s ! k) = Some d)"
  shows "mem (mark_found d st) a = Some (Char_val 1)
       \<and> mem (snd (scan_step strtod args_ctxt argc i st)) a = Some (Char_val 1)
       \<and> res_mem (dooshki_args_parse strtod args_ctxt argc av m) a = Some (Char_val 1)"
proof -
  have step: "mem (snd (scan_step strtod args_ctxt argc i st)) a = Some (Char_val 1)"
    using form long_occurrence_sets_flag[OF sep reach(3,4) _ _ _ _ _ d]
      short_occurrence_sets_flag[OF sep reach(3,4) _ _ _ _ _ _ d]
    by blast
  obtain s1 st1 where st: "scan_step strtod args_ctxt argc i st = (s1, st1)"
    by (cases "scan_step strtod args_ctxt argc i st")
  have "scan_loop strtod args_ctxt argc 1 False (initial_state av m)
          = scan_loop strtod args_ctxt argc i False st"
    using scan_visits_same_result[OF reach(1)] by simp
  also have "\<dots> = scan_loop strtod args_ctxt argc (i + 1) s1 st1"
    using reach(2) st by (subst scan_loop.simps) simp
  finally have "mem (scan_loop strtod args_ctxt argc 1 False (initial_state av m)) a
                  = Some (Char_val 1)"
    using scan_loop_keeps[OF sep, of st1] step st by simp
  then show ?thesis
    using step d by (simp add: dooshki_args_parse_def Let_def split_beta mark_found_sets)
qed

theorem found_flag_set_witness:
  "list_all (leaves_flag 6) (opt_desc cli_args_context)
   \<and> scan_visits strtod_none cli_args_context 2
         (1, False, initial_state [Some ''demo'', Some ''--count=abc''] Map.empty)
         (1, False, initial_state [Some ''demo'', Some ''--count=abc''] Map.empty)
   \<and> opt_found (cli_options ! 3) = Some 6
   \<and> first_long_match (opt_desc cli_args_context) (candidate_name ''--count=abc'')
         = Some (cli_options ! 3)
   \<and> res_mem (dooshki_args_parse strtod_none cli_args_context 2
                  [Some ''demo'', Some ''--count=abc''] Map.empty) 6 = Some (Char_val 1)
   \<and> ret (dooshki_args_parse strtod_none cli_args_context 2
                  [Some ''demo'', Some ''--count=abc''] Map.empty) = DOOSHKI_ARGS_PARSE_ERROR"
proof -
  let ?st = "initial_state [Some ''demo'', Some ''--count=abc''] Map.empty"
  have h1: "\<forall>d' \<in> set (opt_desc cli_args_context). leaves_flag 6 d'"
    by (simp add: cli_args_context_def cli_options_def leaves_flag_def)
  have h2: "scan_visits strtod_none cli_args_context 2 (1, False, ?st) (1, False, ?st)"
    by (rule visits_here)
  have h3: "(1::nat) < 2" by simp
  have h4: "argv ?st ! 1 = Some ''--count=abc''" by (simp add: initial_state_def)
  have h5: "char_at ''--count=abc'' 0 = CHR ''-''" by simp
  have h6: "opt_found (cli_options ! 3) = Some 6" by (simp add: cli_options_def)
  have c: "candidate_name ''--count=abc'' = ''count''"
    by (simp add: candidate_name_def name_char_def)
  have f: "first_long_match (opt_desc cli_args_context) (candidate_name ''--count=abc'')
             = Some (cli_options ! 3)"
    unfolding c
    by (simp add: first_long_match_def table_members_def is_terminator_def
        long_name_matches_def cli_args_context_def cli_options_def)
  have h7: "(char_at ''--count=abc'' 1 = CHR ''-'' \<and> char_at ''--count=abc'' 2 \<noteq> CHR 0x00
          \<and> ''--count=abc'' \<noteq> ''--help'' \<and> ''--count=abc'' \<noteq> ''--version''
          \<and> first_long_match (opt_desc cli_args_context) (candidate_name ''--count=abc'')
                = Some (cli_options ! 3))
       \<or> (char_at ''--count=abc'' 1 \<noteq> CHR ''-'' \<and> c_string ''--count=abc'' \<and> 0 < (1::nat)
          \<and> 1 < length ''--count=abc'' \<and> table_char (''--count=abc'' ! 1)
          \<and> first_short_match (opt_desc cli_args_context) (''--count=abc'' ! 1)
                = Some (cli_options ! 3))"
    using f by (simp add: char_at_def)
  have e: "ret (dooshki_args_parse strtod_none cli_args_context 2
                  [Some ''demo'', Some ''--count=abc''] Map.empty) = DOOSHKI_ARGS_PARSE_ERROR"
    by code_simp
  show ?thesis
    using h1 h2 h6 f e found_flag_set [OF h1 h2 h3 h4 h5 h6 h7]
    by (simp add: list_all_iff)
qed

section \<open>Unsigned integer arguments that are not numerals\<close>

lemma strtoul_end: "fst (snd (strtoul s)) = snd (snd (subject_sequence s))"
  by (simp add: strtoul_def Let_def split_beta)

lemma subject_sequence_end_invalid:
  assumes cs: "c_string s" and ne: "s \<noteq> []" and nn: "\<not> numeral_text s"
  shows "char_at s (snd (snd (subject_sequence s))) \<noteq> CHR 0x00"
proof -
  define r1 where "r1 = dropWhile isspace s"
  define r2 where "r2 = (if r1 \<noteq> [] \<and> (hd r1 = CHR ''-'' \<or> hd r1 = CHR ''+'') then tl r1 else r1)"
  define ds where "ds = takeWhile isdigit r2"
  define rest where "rest = dropWhile isdigit r2"
  have ss: "subject_sequence s
              = (if ds = [] then (False, [], 0)
                 else (r1 \<noteq> [] \<and> hd r1 = CHR ''-'', ds, length s - length rest))"
    by (simp add: subject_sequence_def Let_def r1_def r2_def ds_def rest_def)
  show ?thesis
  proof (cases "ds = []")
    case True
    then show ?thesis using ss char_at_0_c_string[OF cs ne] by simp
  next
    case False
    have r2: "r2 = ds @ rest" by (simp add: ds_def rest_def)
    then have r2ne: "r2 \<noteq> []" using False by simp
    have nt: "numeral_text s = (r2 \<noteq> [] \<and> list_all isdigit r2)"
      unfolding numeral_text_def Let_def r1_def r2_def by (rule refl)
    have "\<not> list_all isdigit r2"
      using nn r2ne unfolding nt by simp
    then have rne: "rest \<noteq> []"
      by (auto simp: rest_def list_all_iff dropWhile_eq_Nil_conv)
    have "\<exists>p. r1 = p @ r2"
    proof (cases "r1 \<noteq> [] \<and> (hd r1 = CHR ''-'' \<or> hd r1 = CHR ''+'')")
      case True
      then have "r1 = [hd r1] @ r2" by (simp add: r2_def)
      then show ?thesis by blast
    next
      case False
      then have "r1 = [] @ r2" by (auto simp: r2_def)
      then show ?thesis by blast
    qed
    then obtain p where p: "r1 = p @ r2" by blast
    have "s = takeWhile isspace s @ r1" by (simp add: r1_def)
    then have s: "s = (takeWhile isspace s @ p @ ds) @ rest" using p r2 by simp
    define pre where "pre = takeWhile isspace s @ p @ ds"
    have s': "s = pre @ rest" using s by (simp add: pre_def)
    have e: "length s - length rest = length pre" by (subst s') simp
    obtain c rs where cr: "rest = c # rs" using rne by (cases rest) auto
    have "c \<in> set s" by (subst s') (simp add: cr)
    then have "c \<noteq> CHR 0x00" using cs by (auto simp: c_string_def)
    moreover have "char_at s (length pre) = c"
      by (subst s') (simp add: char_at_def cr nth_append)
    ultimately show ?thesis using ss False e by simp
  qed
qed

lemma uint_invalid_process:
  assumes "c_string s" and "s \<noteq> []" and "\<not> numeral_text s"
  shows "process_uint_arg d p n s st
           = (False, print_error (Invalid_uint s p n)
                       (store (opt_storage d) (ULong_val (fst (strtoul s))) st))"
  using subject_sequence_end_invalid[OF assms]
  by (simp add: process_uint_arg_def split_beta Let_def strtoul_end)

lemma uint_invalid_convert:
  assumes "opt_type d = DOOSHKI_OPT_UINT" and "c_string s" and "s \<noteq> []"
    and "\<not> numeral_text s"
  shows "convert_arg strtod d l s st
     = set_errors_found
         (print_error
            (Invalid_uint s (if l then ''--'' else ''-'')
               (if l then the (long_name d) else the (short_name d)))
            (store (opt_storage d) (ULong_val (fst (strtoul s))) st))"
  using assms(1) uint_invalid_process[OF assms(2,3,4)]
  by (simp add: convert_arg_def process_opt_arg_def)

lemma uint_rejected_argv_upd [simp]:
  "uint_rejected d s pfx nm (st\<lparr>argv := A\<rparr>) = (uint_rejected d s pfx nm st)\<lparr>argv := A\<rparr>"
  by (simp add: uint_rejected_def)

lemma uint_rejected_fields [simp]:
  "err_out (uint_rejected d s pfx nm st) = err_out st @ [Invalid_uint s pfx nm]"
  "mem (uint_rejected d s pfx nm st) (opt_storage d) = Some (ULong_val (fst (strtoul s)))"
  "errors_found (uint_rejected d s pfx nm st)"
  by (simp_all add: uint_rejected_def)

lemma long_arg_loop_next:
  "j < argc \<Longrightarrow> av ! j = Some s \<Longrightarrow> s \<noteq> ''--'' \<Longrightarrow>
   long_arg_loop argc j av = (Some s, av[j := None])"
  by (subst long_arg_loop.simps) (simp add: strcmp_eq)

lemma uint_long_step:
  assumes tok: "argv st ! i = Some w" "char_at w 0 = CHR ''-''" "char_at w 1 = CHR ''-''"
      "char_at w 2 \<noteq> CHR 0x00" "w \<noteq> ''--help''" "w \<noteq> ''--version''"
    and d: "first_long_match (opt_desc ctxt) (candidate_name w) = Some d"
      "opt_type d = DOOSHKI_OPT_UINT"
    and s: "c_string s" "s \<noteq> []" "\<not> numeral_text s"
    and v: "inline_value w = Some s
            \<or> (inline_value w = None \<and> Suc i < argc \<and> argv st ! Suc i = Some s \<and> s \<noteq> ''--'')"
  shows "\<exists>A. scan_step strtod ctxt argc i st
             = (False, (uint_rejected d s ''--'' (the (long_name d)) st)\<lparr>argv := A\<rparr>)"
proof -
  have p: "process_long_opt strtod ctxt argc i st
             = long_opt_found strtod argc i d (inline_value w) st"
    using process_long_opt_lookup[OF tok(1,5,6), of strtod ctxt argc] d(1) by simp
  have c: "\<And>st1. convert_arg strtod d True s st1
             = set_errors_found
                 (print_error (Invalid_uint s ''--'' (the (long_name d)))
                    (store (opt_storage d) (ULong_val (fst (strtoul s))) st1))"
    using uint_invalid_convert[OF d(2) s, of strtod True] by simp
  have "\<exists>A. long_opt_found strtod argc i d (inline_value w) st
             = (uint_rejected d s ''--'' (the (long_name d)) st)\<lparr>argv := A\<rparr>"
  proof (cases "inline_value w")
    case (Some a)
    then have "a = s" using v by simp
    then have "long_opt_found strtod argc i d (inline_value w) st
                 = (uint_rejected d s ''--'' (the (long_name d)) st)\<lparr>argv := argv st\<rparr>"
      using Some d(2) by (simp add: long_opt_found_def Let_def c uint_rejected_def)
    then show ?thesis by blast
  next
    case None
    then have n: "Suc i < argc" "argv st ! Suc i = Some s" "s \<noteq> ''--''" using v by simp_all
    have l: "long_arg_loop argc (Suc i) (argv st) = (Some s, (argv st)[Suc i := None])"
      using long_arg_loop_next[OF n] .
    have "long_opt_found strtod argc i d (inline_value w) st
            = (uint_rejected d s ''--'' (the (long_name d)) st)\<lparr>argv := (argv st)[Suc i := None]\<rparr>"
      using None d(2) by (simp add: long_opt_found_def Let_def l c uint_rejected_def)
    then show ?thesis by blast
  qed
  then obtain A where
    "long_opt_found strtod argc i d (inline_value w) st
       = (uint_rejected d s ''--'' (the (long_name d)) st)\<lparr>argv := A\<rparr>" by blast
  then have "scan_step strtod ctxt argc i st
               = (False, (uint_rejected d s ''--'' (the (long_name d)) st)\<lparr>argv := A[i := None]\<rparr>)"
    using tok(1,2,3,4) p by (simp add: scan_step_def)
  then show ?thesis by blast
qed

lemma uint_short_step:
  assumes tok: "argv st ! i = Some [CHR ''-'', c]" "table_char c"
    and d: "first_short_match (opt_desc ctxt) c = Some d" "opt_type d = DOOSHKI_OPT_UINT"
    and s: "c_string s" "s \<noteq> []" "\<not> numeral_text s"
    and v: "Suc i < argc" "argv st ! Suc i = Some s" "s \<noteq> ''--''"
  shows "\<exists>A. scan_step strtod ctxt argc i st
             = (False, (uint_rejected d s ''-'' (the (short_name d)) st)\<lparr>argv := A\<rparr>)"
proof -
  have tv: "takes_value d" using d(2) by (simp add: takes_value_def)
  have l: "long_arg_loop argc (Suc i) (argv st) = (Some s, (argv st)[Suc i := None])"
    using long_arg_loop_next[OF v] .
  have c: "take_short strtod d s st = uint_rejected d s ''-'' (the (short_name d)) st"
    using uint_invalid_convert[OF d(2) s, of strtod False]
    by (simp add: take_short_def uint_rejected_def)
  have o: "short_opt_loop strtod argc i c (opt_desc ctxt) st
             = (uint_rejected d s ''-'' (the (short_name d)) st)\<lparr>argv := (argv st)[Suc i := None]\<rparr>"
    using short_value_char[OF d(1) tv, of strtod argc i st] l c by simp
  have "short_chars_loop strtod ctxt argc i [CHR ''-'', c] 1 st
          = (uint_rejected d s ''-'' (the (short_name d)) st)\<lparr>argv := (argv st)[Suc i := None]\<rparr>"
    using tok(2) o
    by (subst short_chars_loop.simps, subst short_chars_loop.simps)
       (simp add: table_char_def char_at_def)
  then have "scan_step strtod ctxt argc i st
               = (False, (uint_rejected d s ''-'' (the (short_name d)) st)
                    \<lparr>argv := (argv st)[Suc i := None, i := None]\<rparr>)"
    using tok by (simp add: scan_step_def process_short_opts_def table_char_def)
  then show ?thesis by blast
qed

lemma scan_loop_skip:
  "\<forall>j. i \<le> j \<and> j < argc \<longrightarrow> argv st ! j = None
     \<Longrightarrow> scan_loop strtod ctxt argc i False st = st"
proof (induction "argc - i" arbitrary: i)
  case 0
  then show ?case by (subst scan_loop.simps) simp
next
  case (Suc n)
  then have lt: "i < argc" by simp
  then have "argv st ! i = None" using Suc(3) by simp
  then have s: "scan_step strtod ctxt argc i st = (False, st)"
    by (simp add: scan_step_def)
  have "scan_loop strtod ctxt argc (i + 1) False st = st"
    using Suc(1)[of "i + 1"] Suc(2,3) by simp
  then show ?case using lt s by (subst scan_loop.simps) simp
qed

lemma uint_occurrence:
  assumes reach: "scan_visits strtod ctxt argc (1, False, initial_state av m) (i, False, st)"
      "i < argc"
    and step: "scan_step strtod ctxt argc i st = (False, (uint_rejected d s pfx nm st)\<lparr>argv := A\<rparr>)"
  shows "err_out (snd (scan_step strtod ctxt argc i st)) = err_out st @ [Invalid_uint s pfx nm]"
    and "mem (snd (scan_step strtod ctxt argc i st)) (opt_storage d)
           = Some (ULong_val (fst (strtoul s)))"
    and "errors_found (snd (scan_step strtod ctxt argc i st))"
    and "ret (dooshki_args_parse strtod ctxt argc av m) \<noteq> DOOSHKI_ARGS_PARSE_OK"
    and "(\<forall>j. i < j \<and> j < argc \<longrightarrow> argv (snd (scan_step strtod ctxt argc i st)) ! j = None)
           \<longrightarrow> res_err (dooshki_args_parse strtod ctxt argc av m)
                 = err_out st @ [Invalid_uint s pfx nm]
               \<and> res_mem (dooshki_args_parse strtod ctxt argc av m) (opt_storage d)
                 = Some (ULong_val (fst (strtoul s)))"
proof -
  let ?st1 = "(uint_rejected d s pfx nm st)\<lparr>argv := A\<rparr>"
  let ?fin = "scan_loop strtod ctxt argc 1 False (initial_state av m)"
  show "err_out (snd (scan_step strtod ctxt argc i st)) = err_out st @ [Invalid_uint s pfx nm]"
    and "mem (snd (scan_step strtod ctxt argc i st)) (opt_storage d)
           = Some (ULong_val (fst (strtoul s)))"
    and "errors_found (snd (scan_step strtod ctxt argc i st))"
    unfolding step by simp_all
  have "?fin = scan_loop strtod ctxt argc i False st"
    using scan_visits_same_result[OF reach(1)] by simp
  also have "\<dots> = scan_loop strtod ctxt argc (i + 1) False ?st1"
    using reach(2) step by (subst scan_loop.simps) simp
  finally have fin: "?fin = scan_loop strtod ctxt argc (i + 1) False ?st1" .
  have "errors_found ?fin"
    unfolding fin by (rule scan_loop_errors_kept) simp
  then show "ret (dooshki_args_parse strtod ctxt argc av m) \<noteq> DOOSHKI_ARGS_PARSE_OK"
    by (simp add: dooshki_args_parse_def Let_def split_beta outcome_def)
  show "(\<forall>j. i < j \<and> j < argc \<longrightarrow> argv (snd (scan_step strtod ctxt argc i st)) ! j = None)
           \<longrightarrow> res_err (dooshki_args_parse strtod ctxt argc av m)
                 = err_out st @ [Invalid_uint s pfx nm]
               \<and> res_mem (dooshki_args_parse strtod ctxt argc av m) (opt_storage d)
                 = Some (ULong_val (fst (strtoul s)))"
  proof
    assume "\<forall>j. i < j \<and> j < argc \<longrightarrow> argv (snd (scan_step strtod ctxt argc i st)) ! j = None"
    then have "\<forall>j. i + 1 \<le> j \<and> j < argc \<longrightarrow> argv ?st1 ! j = None"
      unfolding step by simp
    then have "?fin = ?st1"
      unfolding fin by (rule scan_loop_skip)
    then show "res_err (dooshki_args_parse strtod ctxt argc av m)
                 = err_out st @ [Invalid_uint s pfx nm]
               \<and> res_mem (dooshki_args_parse strtod ctxt argc av m) (opt_storage d)
                 = Some (ULong_val (fst (strtoul s)))"
      by (simp add: dooshki_args_parse_def Let_def split_beta)
  qed
qed

text \<open>
  Claim C3 as stated fails: \<open>process_uint_arg\<close> assigns the result of \<open>strtoul\<close> to the
  destination before it tests the text.  With the destination holding 7, \<open>--count=abc\<close>
  leaves a different value there.
\<close>

theorem uint_invalid_counterexample:
  "res_mem (dooshki_args_parse strtod_none cli_args_context 2
              [Some ''demo'', Some ''--count=abc''] [5 \<mapsto> ULong_val 7]) 5
     \<noteq> [5 \<mapsto> ULong_val 7] (5::addr)"
  by code_simp

text \<open>
  Claim C3, amended.  Let the scanning loop of a call come to an occurrence of an option
  \<open>d\<close> of type \<open>DOOSHKI_OPT_UINT\<close> whose value text \<open>s\<close> is not empty and not a numeral
  (as \<open>abc\<close> or \<open>12x\<close>): the word \<open>--name=s\<close>, the word \<open>--name\<close> followed by \<open>s\<close>, or the
  word \<open>-c\<close> followed by \<open>s\<close>.  Then the iteration for that word prints exactly one message,
  the invalid-number message for \<open>s\<close>, sets the error flag, and leaves in the destination
  the value \<open>strtoul\<close> returned for \<open>s\<close> (0 for \<open>abc\<close>, 12 for \<open>12x\<close>): the destination is
  overwritten, not left as it was.  The call does not return \<open>DOOSHKI_ARGS_PARSE_OK\<close>; and
  when nothing is left to scan after the occurrence, the message is the last of the call
  and the destination holds that value when the call returns.
\<close>

theorem uint_invalid_text:
  assumes reach: "scan_visits strtod args_ctxt argc (1, False, initial_state av m) (i, False, st)"
      "i < argc" "argv st ! i = Some w"
    and d: "opt_type d = DOOSHKI_OPT_UINT"
    and s: "c_string s" "s \<noteq> []" "\<not> numeral_text s"
    and form:
      "(char_at w 0 = CHR ''-'' \<and> char_at w 1 = CHR ''-'' \<and> char_at w 2 \<noteq> CHR 0x00
          \<and> w \<noteq> ''--help'' \<and> w \<noteq> ''--version''
          \<and> first_long_match (opt_desc args_ctxt) (candidate_name w) = Some d
          \<and> pfx = ''--'' \<and> nm = the (long_name d)
          \<and> (inline_value w = Some s
              \<or> (inline_value w = None \<and> Suc i < argc \<and> argv st ! Suc i = Some s
                  \<and> s \<noteq> ''--'')))
       \<or> (w = [CHR ''-'', c] \<and> table_char c
          \<and> first_short_match (opt_desc args_ctxt) c = Some d
          \<and> pfx = ''-'' \<and> nm = the (short_name d)
          \<and> Suc i < argc \<and> argv st ! Suc i = Some s \<and> s \<noteq> ''--'')"
  shows "err_out (snd (scan_step strtod args_ctxt argc i st))
           = err_out st @ [Invalid_uint s pfx nm]
       \<and> mem (snd (scan_step strtod args_ctxt argc i st)) (opt_storage d)
           = Some (ULong_val (fst (strtoul s)))
       \<and> errors_found (snd (scan_step strtod args_ctxt argc i st))
       \<and> ret (dooshki_args_parse strtod args_ctxt argc av m) \<noteq> DOOSHKI_ARGS_PARSE_OK
       \<and> ((\<forall>j. i < j \<and> j < argc
                 \<longrightarrow> argv (snd (scan_step strtod args_ctxt argc i st)) ! j = None)
            \<longrightarrow> res_err (dooshki_args_parse strtod args_ctxt argc av m)
                  = err_out st @ [Invalid_uint s pfx nm]
                \<and> res_mem (dooshki_args_parse strtod args_ctxt argc av m) (opt_storage d)
                  = Some (ULong_val (fst (strtoul s))))"
proof -
  have L: "\<exists>A. scan_step strtod args_ctxt argc i st
             = (False, (uint_rejected d s pfx nm st)\<lparr>argv := A\<rparr>)"
    if a: "char_at w 0 = CHR ''-''" "char_at w 1 = CHR ''-''" "char_at w 2 \<noteq> CHR 0x00"
      "w \<noteq> ''--help''" "w \<noteq> ''--version''"
      "first_long_match (opt_desc args_ctxt) (candidate_name w) = Some d"
      "pfx = ''--''" "nm = the (long_name d)"
      "inline_value w = Some s
         \<or> (inline_value w = None \<and> Suc i < argc \<and> argv st ! Suc i = Some s \<and> s \<noteq> ''--'')"
    using uint_long_step[OF reach(3) a(1,2,3,4,5,6) d s a(9), where strtod = strtod] a(7,8)
    by simp
  have S: "\<exists>A. scan_step strtod args_ctxt argc i st
             = (False, (uint_rejected d s pfx nm st)\<lparr>argv := A\<rparr>)"
    if a: "w = [CHR ''-'', c]" "table_char c"
      "first_short_match (opt_desc args_ctxt) c = Some d"
      "pfx = ''-''" "nm = the (short_name d)"
      "Suc i < argc" "argv st ! Suc i = Some s" "s \<noteq> ''--''"
  proof -
    have t: "argv st ! i = Some [CHR ''-'', c]" using reach(3) a(1) by simp
    show ?thesis
      using uint_short_step[OF t a(2,3) d s a(6,7,8), where strtod = strtod] a(4,5) by simp
  qed
  have "\<exists>A. scan_step strtod args_ctxt argc i st
             = (False, (uint_rejected d s pfx nm st)\<lparr>argv := A\<rparr>)"
    using form L S by blast
  then obtain A where
    step: "scan_step strtod args_ctxt argc i st = (False, (uint_rejected d s pfx nm st)\<lparr>argv := A\<rparr>)"
    by blast
  show ?thesis
    using uint_occurrence[OF reach(1,2) step] by blast
qed


theorem uint_invalid_text_witness:
  "scan_visits strtod_none cli_args_context 2
       (1, False, initial_state [Some ''demo'', Some ''--count=12x''] [5 \<mapsto> ULong_val 7])
       (1, False, initial_state [Some ''demo'', Some ''--count=12x''] [5 \<mapsto> ULong_val 7])
   \<and> opt_type (cli_options ! 3) = DOOSHKI_OPT_UINT \<and> opt_storage (cli_options ! 3) = 5
   \<and> c_string ''12x'' \<and> \<not> numeral_text ''12x'' \<and> c_string ''abc'' \<and> \<not> numeral_text ''abc''
   \<and> first_long_match (opt_desc cli_args_context) (candidate_name ''--count=12x'')
         = Some (cli_options ! 3)
   \<and> inline_value ''--count=12x'' = Some ''12x''
   \<and> first_short_match (opt_desc cli_args_context) CHR ''c'' = Some (cli_options ! 3)
   \<and> res_err (dooshki_args_parse strtod_none cli_args_context 2
                  [Some ''demo'', Some ''--count=12x''] [5 \<mapsto> ULong_val 7])
         = [Invalid_uint ''12x'' ''--'' ''count'']
   \<and> res_mem (dooshki_args_parse strtod_none cli_args_context 2
                  [Some ''demo'', Some ''--count=12x''] [5 \<mapsto> ULong_val 7]) 5
         = Some (ULong_val 12)
   \<and> ret (dooshki_args_parse strtod_none cli_args_context 2
                  [Some ''demo'', Some ''--count=12x''] [5 \<mapsto> ULong_val 7])
         \<noteq> DOOSHKI_ARGS_PARSE_OK
   \<and> res_err (dooshki_args_parse strtod_none cli_args_context 3
                  [Some ''demo'', Some ''-c'', Some ''abc''] [5 \<mapsto> ULong_val 7])
         = [Invalid_uint ''abc'' ''-'' ''c'']
   \<and> res_mem (dooshki_args_parse strtod_none cli_args_context 3
                  [Some ''demo'', Some ''-c'', Some ''abc''] [5 \<mapsto> ULong_val 7]) 5
         = Some (ULong_val 0)"
proof -
  let ?d = "cli_options ! 3"
  let ?a = "initial_state [Some ''demo'', Some ''--count=12x''] [5 \<mapsto> ULong_val 7]"
  let ?b = "initial_state [Some ''demo'', Some ''-c'', Some ''abc''] [5 \<mapsto> ULong_val 7]"
  have ra: "scan_visits strtod_none cli_args_context 2 (1, False, ?a) (1, False, ?a)"
    by (rule visits_here)
  have rb: "scan_visits strtod_none cli_args_context 3 (1, False, ?b) (1, False, ?b)"
    by (rule visits_here)
  have wa: "argv ?a ! 1 = Some ''--count=12x''" by (simp add: initial_state_def)
  have wb: "argv ?b ! 1 = Some ''-c''" by (simp add: initial_state_def)
  have d: "opt_type ?d = DOOSHKI_OPT_UINT" "opt_storage ?d = 5" "the (long_name ?d) = ''count''"
    "the (short_name ?d) = ''c''"
    by (simp_all add: cli_options_def)
  have sa: "c_string ''12x''" "''12x'' \<noteq> []" "\<not> numeral_text ''12x''"
    by (simp_all add: c_string_def numeral_text_def isspace_def isdigit_def)
  have sb: "c_string ''abc''" "''abc'' \<noteq> []" "\<not> numeral_text ''abc''"
    by (simp_all add: c_string_def numeral_text_def isspace_def isdigit_def)
  have va: "fst (strtoul ''12x'') = 12" by code_simp
  have vb: "fst (strtoul ''abc'') = 0" by code_simp
  have cn: "candidate_name ''--count=12x'' = ''count''"
    by (simp add: candidate_name_def name_char_def)
  have fl: "first_long_match (opt_desc cli_args_context) (candidate_name ''--count=12x'') = Some ?d"
    unfolding cn
    by (simp add: first_long_match_def table_members_def is_terminator_def
        long_name_matches_def cli_args_context_def cli_options_def)
  have iv: "inline_value ''--count=12x'' = Some ''12x''"
    by (simp add: inline_value_def name_char_def)
  have fs: "first_short_match (opt_desc cli_args_context) CHR ''c'' = Some ?d"
    by (simp add: first_short_match_def table_members_def is_terminator_def
        short_name_matches_def cli_args_context_def cli_options_def)
  have fa: "(char_at ''--count=12x'' 0 = CHR ''-'' \<and> char_at ''--count=12x'' 1 = CHR ''-''
          \<and> char_at ''--count=12x'' 2 \<noteq> CHR 0x00
          \<and> ''--count=12x'' \<noteq> ''--help'' \<and> ''--count=12x'' \<noteq> ''--version''
          \<and> first_long_match (opt_desc cli_args_context) (candidate_name ''--count=12x'') = Some ?d
          \<and> ''--'' = ''--'' \<and> ''count'' = the (long_name ?d)
          \<and> (inline_value ''--count=12x'' = Some ''12x''
              \<or> (inline_value ''--count=12x'' = None \<and> Suc 1 < 2 \<and> argv ?a ! Suc 1 = Some ''12x''
                  \<and> ''12x'' \<noteq> ''--'')))
       \<or> (''--count=12x'' = [CHR ''-'', CHR ''c''] \<and> table_char CHR ''c''
          \<and> first_short_match (opt_desc cli_args_context) CHR ''c'' = Some ?d
          \<and> ''--'' = ''-'' \<and> ''count'' = the (short_name ?d)
          \<and> Suc 1 < 2 \<and> argv ?a ! Suc 1 = Some ''12x'' \<and> ''12x'' \<noteq> ''--'')"
    using fl iv d by (simp add: char_at_def)
  have fb: "(char_at ''-c'' 0 = CHR ''-'' \<and> char_at ''-c'' 1 = CHR ''-''
          \<and> char_at ''-c'' 2 \<noteq> CHR 0x00
          \<and> ''-c'' \<noteq> ''--help'' \<and> ''-c'' \<noteq> ''--version''
          \<and> first_long_match (opt_desc cli_args_context) (candidate_name ''-c'') = Some ?d
          \<and> ''-'' = ''--'' \<and> ''c'' = the (long_name ?d)
          \<and> (inline_value ''-c'' = Some ''abc''
              \<or> (inline_value ''-c'' = None \<and> Suc 1 < 3 \<and> argv ?b ! Suc 1 = Some ''abc''
                  \<and> ''abc'' \<noteq> ''--'')))
       \<or> (''-c'' = [CHR ''-'', CHR ''c''] \<and> table_char CHR ''c''
          \<and> first_short_match (opt_desc cli_args_context) CHR ''c'' = Some ?d
          \<and> ''-'' = ''-'' \<and> ''c'' = the (short_name ?d)
          \<and> Suc 1 < 3 \<and> argv ?b ! Suc 1 = Some ''abc'' \<and> ''abc'' \<noteq> ''--'')"
    using fs d by (simp add: table_char_def initial_state_def)
  have nb: "argv (snd (scan_step strtod_none cli_args_context 3 1 ?b)) = [Some ''demo'', None, None]"
    by code_simp
  have lb: "\<forall>j. 1 < j \<and> j < 3
              \<longrightarrow> argv (snd (scan_step strtod_none cli_args_context 3 1 ?b)) ! j = None"
    unfolding nb by (auto simp: nth_Cons' )
  have i2: "(1::nat) < 2" and i3: "(1::nat) < 3" by simp_all
  have la: "\<forall>j. 1 < j \<and> j < 2
              \<longrightarrow> argv (snd (scan_step strtod_none cli_args_context 2 1 ?a)) ! j = None"
    by auto
  note A = uint_invalid_text [OF ra i2 wa d(1) sa fa]
  note B = uint_invalid_text [OF rb i3 wb d(1) sb fb]
  have A1: "res_err (dooshki_args_parse strtod_none cli_args_context 2
                  [Some ''demo'', Some ''--count=12x''] [5 \<mapsto> ULong_val 7])
              = err_out ?a @ [Invalid_uint ''12x'' ''--'' ''count'']
          \<and> res_mem (dooshki_args_parse strtod_none cli_args_context 2
                  [Some ''demo'', Some ''--count=12x''] [5 \<mapsto> ULong_val 7]) (opt_storage ?d)
              = Some (ULong_val (fst (strtoul ''12x'')))
          \<and> ret (dooshki_args_parse strtod_none cli_args_context 2
                  [Some ''demo'', Some ''--count=12x''] [5 \<mapsto> ULong_val 7])
              \<noteq> DOOSHKI_ARGS_PARSE_OK"
    using A la by blast
  have B1: "res_err (dooshki_args_parse strtod_none cli_args_context 3
                  [Some ''demo'', Some ''-c'', Some ''abc''] [5 \<mapsto> ULong_val 7])
              = err_out ?b @ [Invalid_uint ''abc'' ''-'' ''c'']
          \<and> res_mem (dooshki_args_parse strtod_none cli_args_context 3
                  [Some ''demo'', Some ''-c'', Some ''abc''] [5 \<mapsto> ULong_val 7]) (opt_storage ?d)
              = Some (ULong_val (fst (strtoul ''abc'')))"
    using B lb by blast
  show ?thesis
    using ra d(1,2) sa sb fl iv fs A1 B1 unfolding va vb d(2)
    by (simp add: initial_state_def)
qed

section \<open>The words retained by a call\<close>

lemma before_marker_simps [simp]:
  "before_marker [] = []"
  "before_marker (w # ws) = (if w = ''--'' then [] else w # before_marker ws)"
  by (simp_all add: before_marker_def)

lemma avail_simps [simp]:
  "avail [] = 0"
  "avail (w # ws) = (if w = ''--'' then 0 else Suc (avail ws))"
  by (simp_all add: avail_def)

lemma before_marker_drop:
  "m \<le> avail ws \<Longrightarrow> before_marker (drop m ws) = drop m (before_marker ws)"
proof (induction ws arbitrary: m)
  case Nil
  then show ?case by simp
next
  case (Cons w ws)
  then show ?case by (cases m) (auto split: if_splits)
qed

lemma retained_eager:
  "retained tbl n ws = retained tbl 0 (drop (min n (avail ws)) ws)"
proof (induction ws arbitrary: n)
  case Nil
  show ?case by simp
next
  case (Cons w ws)
  show ?case
  proof (cases "w = ''--''")
    case True
    then show ?thesis by simp
  next
    case False
    show ?thesis
    proof (cases n)
      case 0
      then show ?thesis by simp
    next
      case (Suc k)
      then show ?thesis using False Cons[of k] by simp
    qed
  qed
qed

lemma long_arg_loop_struct:
  "argc = length Q + k + length rest \<Longrightarrow>
   long_arg_loop argc (length Q) (Q @ replicate k None @ map Some rest)
     = (case rest of
          [] \<Rightarrow> (None, Q @ replicate k None @ map Some rest)
        | t # r \<Rightarrow>
            if t = ''--'' then (None, Q @ replicate k None @ map Some rest)
            else (Some t, Q @ replicate (Suc k) None @ map Some r))"
proof (induction k arbitrary: Q)
  case 0
  then show ?case
    by (subst long_arg_loop.simps)
       (auto simp: nth_append strcmp_eq list_update_append split: list.splits)
next
  case (Suc k)
  have a: "argc = length (Q @ [None]) + k + length rest" using Suc(2) by simp
  have "long_arg_loop argc (length Q) (Q @ replicate (Suc k) None @ map Some rest)
        = long_arg_loop argc (length (Q @ [None]))
            ((Q @ [None]) @ replicate k None @ map Some rest)"
    using Suc(2) by (subst long_arg_loop.simps) (simp add: nth_append)
  also have "\<dots> = (case rest of
          [] \<Rightarrow> (None, (Q @ [None]) @ replicate k None @ map Some rest)
        | t # r \<Rightarrow>
            if t = ''--'' then (None, (Q @ [None]) @ replicate k None @ map Some rest)
            else (Some t, (Q @ [None]) @ replicate (Suc k) None @ map Some r))"
    by (rule Suc(1)[OF a])
  finally show ?case
    by (simp add: replicate_app_Cons_same split: list.splits)
qed

lemma avail_drop: "m \<le> avail ws \<Longrightarrow> avail (drop m ws) = avail ws - m"
proof (induction ws arbitrary: m)
  case Nil
  then show ?case by simp
next
  case (Cons w ws)
  then show ?case by (cases m) (auto split: if_splits)
qed

lemma long_opt_found_argv:
  "argv (long_opt_found strtod argc i d argument st)
     = (if takes_value d \<and> argument = None
        then snd (long_arg_loop argc (Suc i) (argv st)) else argv st)"
  by (cases "opt_type d")
     (simp_all add: long_opt_found_def Let_def takes_value_def split_beta
        split: option.splits prod.splits)

lemma process_long_opt_argv:
  assumes "argv st ! i = Some w"
  shows "argv (process_long_opt strtod ctxt argc i st)
           = (if long_values (opt_desc ctxt) w = 1
              then snd (long_arg_loop argc (Suc i) (argv st)) else argv st)"
proof (cases "w = ''--help'' \<or> w = ''--version''")
  case True
  then show ?thesis
    using assms by (auto simp: process_long_opt_def strcmp_eq long_values_def)
next
  case False
  then show ?thesis
    using process_long_opt_lookup[OF assms, of strtod ctxt argc]
    by (simp add: long_values_def long_opt_found_argv split: option.splits)
qed

lemma short_opt_found_argv:
  "argv (short_opt_found strtod argc i d st)
     = (if takes_value d then snd (long_arg_loop argc (Suc i) (argv st)) else argv st)"
  by (cases "opt_type d")
     (simp_all add: short_opt_found_def Let_def takes_value_def split_beta short_arg_loop_eq
        split: option.splits prod.splits)

lemma short_char_argv:
  "argv (if c = CHR ''h'' then set_show_help st
         else if c = CHR ''V'' then set_show_version st
         else short_opt_loop strtod argc i c tbl st)
     = (if value_char tbl c then snd (long_arg_loop argc (Suc i) (argv st)) else argv st)"
  by (simp add: value_char_def builtin_char_def short_opt_loop_find short_opt_found_argv
      split: option.splits)

lemma eat_one:
  assumes "av = P @ Some w0 # replicate k None @ map Some rest" and "length P = i"
  shows "snd (long_arg_loop (length av) (Suc i) av)
           = P @ Some w0 # replicate (k + min 1 (avail rest)) None
               @ map Some (drop (min 1 (avail rest)) rest)"
proof -
  have a: "length av = length (P @ [Some w0]) + k + length rest" using assms(1) by simp
  have e: "av = (P @ [Some w0]) @ replicate k None @ map Some rest" using assms(1) by simp
  have i: "Suc i = length (P @ [Some w0])" using assms(2) by simp
  have "long_arg_loop (length av) (Suc i) av
     = (case rest of
          [] \<Rightarrow> (None, av)
        | t # r \<Rightarrow>
            if t = ''--'' then (None, av)
            else (Some t, (P @ [Some w0]) @ replicate (Suc k) None @ map Some r))"
    using long_arg_loop_struct[OF a] unfolding e[symmetric] i[symmetric] .
  then show ?thesis
    using assms(1) by (auto simp: replicate_app_Cons_same split: list.splits)
qed

lemma avail_le_length: "avail ws \<le> length ws"
  by (induction ws) auto

lemma short_chars_loop_argv:
  assumes "argv st = P @ Some w0 # replicate k None @ map Some rest" and "length P = i"
    and "argc = length (argv st)"
  shows "argv (short_chars_loop strtod ctxt argc i s j st)
           = P @ Some w0
               # replicate (k + min (length (filter (value_char (opt_desc ctxt))
                                      (takeWhile (\<lambda>c. c \<noteq> CHR 0x00) (drop j s)))) (avail rest)) None
               @ map Some (drop (min (length (filter (value_char (opt_desc ctxt))
                                      (takeWhile (\<lambda>c. c \<noteq> CHR 0x00) (drop j s)))) (avail rest)) rest)"
  using assms
proof (induction "length s - j" arbitrary: j st k rest)
  case 0
  then have "char_at s j = CHR 0x00" by (simp add: char_at_def)
  then show ?case
    using 0 by (subst short_chars_loop.simps) simp
next
  case (Suc n)
  then have jl: "j < length s" by simp
  show ?case
  proof (cases "s ! j = CHR 0x00")
    case True
    then have "char_at s j = CHR 0x00" using jl by (simp add: char_at_def)
    moreover have "takeWhile (\<lambda>c. c \<noteq> CHR 0x00) (drop j s) = []"
      using True jl by (simp add: Cons_nth_drop_Suc[symmetric])
    ultimately show ?thesis
      using Suc(3) by (subst short_chars_loop.simps) simp
  next
    case False
    define c where "c = s ! j"
    have ck: "char_at s j = c" using jl by (simp add: char_at_def c_def)
    have cn: "c \<noteq> CHR 0x00" using False by (simp add: c_def)
    define n' where "n' = length (filter (value_char (opt_desc ctxt))
                                      (takeWhile (\<lambda>c. c \<noteq> CHR 0x00) (drop (j + 1) s)))"
    have cnt: "length (filter (value_char (opt_desc ctxt))
                 (takeWhile (\<lambda>c. c \<noteq> CHR 0x00) (drop j s)))
               = (if value_char (opt_desc ctxt) c then Suc n' else n')"
      using jl cn by (simp add: Cons_nth_drop_Suc[symmetric] c_def n'_def)
    let ?st1 = "(if c = CHR ''h'' then set_show_help st
           else if c = CHR ''V'' then set_show_version st
           else short_opt_loop strtod argc i c (opt_desc ctxt) st)"
    have unf: "short_chars_loop strtod ctxt argc i s j st
                 = short_chars_loop strtod ctxt argc i s (j + 1) ?st1"
      using cn ck by (subst short_chars_loop.simps) simp
    define m1 where "m1 = (if value_char (opt_desc ctxt) c then min 1 (avail rest) else 0)"
    have a1: "argv ?st1 = P @ Some w0 # replicate (k + m1) None @ map Some (drop m1 rest)"
      unfolding short_char_argv
      using eat_one[OF Suc(3,4)] Suc(3,5) by (simp add: m1_def)
    have m1le: "m1 \<le> avail rest" by (simp add: m1_def)
    then have m1len: "m1 \<le> length rest" using avail_le_length[of rest] by simp
    have len: "argc = length (argv ?st1)"
      unfolding a1 using Suc(3,5) m1len by simp
    have meas: "n = length s - (j + 1)" using Suc(2) by simp
    note ih = Suc(1)[OF meas a1 Suc(4) len]
    have ar: "m1 + min n' (avail (drop m1 rest))
                = min (if value_char (opt_desc ctxt) c then Suc n' else n') (avail rest)"
      unfolding avail_drop[OF m1le] by (auto simp: m1_def)
    show ?thesis
      unfolding unf ih cnt n'_def[symmetric] ar[symmetric]
      by (simp add: add.assoc add.commute[of _ m1])
  qed
qed

lemma filter_map_Some [simp]: "filter (\<lambda>x. x \<noteq> None) (map Some ws) = map Some ws"
  by (induction ws) auto

lemma scan_step_operand:
  "argv st ! i = Some w \<Longrightarrow> char_at w 0 \<noteq> CHR ''-'' \<Longrightarrow>
   scan_step strtod ctxt argc i st = (False, st)"
  by (simp add: scan_step_def)

lemma scan_step_marker_word:
  "argv st ! i = Some ''--'' \<Longrightarrow>
   scan_step strtod ctxt argc i st = (True, st\<lparr>argv := (argv st)[i := None]\<rparr>)"
  by (simp add: scan_step_def char_at_def)

lemma scan_step_option_word:
  assumes av: "argv st = P @ Some w # map Some ws" and i: "length P = i"
    and len: "argc = length (argv st)"
    and w: "c_string w" "option_word w" "w \<noteq> ''--''"
  shows "fst (scan_step strtod ctxt argc i st) = False"
    and "argv (snd (scan_step strtod ctxt argc i st))
           = P @ None # replicate (min (values_wanted (opt_desc ctxt) w) (avail ws)) None
               @ map Some (drop (min (values_wanted (opt_desc ctxt) w) (avail ws)) ws)"
proof -
  have t: "argv st ! i = Some w" using av i by (simp add: nth_append)
  have ns: "\<not> is_stopper w" using w(1,3) is_stopper_c_string by blast
  have d0: "char_at w 0 = CHR ''-''" using w(2) by (simp add: option_word_def)
  show "fst (scan_step strtod ctxt argc i st) = False"
    using t ns scan_step_stopper[of strtod ctxt argc i st] by simp
  have av0: "argv st = P @ Some w # replicate 0 None @ map Some ws" using av by simp
  show "argv (snd (scan_step strtod ctxt argc i st))
           = P @ None # replicate (min (values_wanted (opt_desc ctxt) w) (avail ws)) None
               @ map Some (drop (min (values_wanted (opt_desc ctxt) w) (avail ws)) ws)"
  proof (cases "char_at w 1 = CHR ''-''")
    case True
    then have c2: "char_at w 2 \<noteq> CHR 0x00" using ns d0 by (simp add: is_stopper_def)
    have lv: "long_values (opt_desc ctxt) w = 0 \<or> long_values (opt_desc ctxt) w = 1"
      by (simp add: long_values_def split: option.splits)
    have "argv (process_long_opt strtod ctxt argc i st)
            = P @ Some w # replicate (min (long_values (opt_desc ctxt) w) (avail ws)) None
                @ map Some (drop (min (long_values (opt_desc ctxt) w) (avail ws)) ws)"
      unfolding process_long_opt_argv[OF t]
      using lv eat_one[OF av0 i] av len by auto
    then show ?thesis
      using t d0 True c2 i
      by (simp add: scan_step_def values_wanted_def list_update_append)
  next
    case False
    have "argv (short_chars_loop strtod ctxt argc i w 1 st)
            = P @ Some w # replicate (min (short_values (opt_desc ctxt) w) (avail ws)) None
                @ map Some (drop (min (short_values (opt_desc ctxt) w) (avail ws)) ws)"
      using short_chars_loop_argv[OF av0 i len, of strtod ctxt w 1]
      by (simp add: short_values_def cluster_chars_def)
    then show ?thesis
      using t d0 False i
      by (simp add: scan_step_def values_wanted_def process_short_opts_def list_update_append)
  qed
qed

lemma word_kinds:
  assumes "c_string w" and "w \<noteq> ''-''"
  shows "char_at w 0 \<noteq> CHR ''-'' \<or> w = ''--'' \<or> (option_word w \<and> w \<noteq> ''--'')"
proof (cases w)
  case Nil
  then show ?thesis by simp
next
  case (Cons a r)
  show ?thesis
  proof (cases r)
    case Nil
    then show ?thesis using Cons assms(2) by auto
  next
    case (Cons b r')
    have "b \<noteq> CHR 0x00" using assms(1) \<open>w = a # r\<close> Cons by (auto simp: c_string_def)
    then show ?thesis using \<open>w = a # r\<close> Cons by (auto simp: option_word_def)
  qed
qed

lemma scan_loop_stopped: "scan_loop strtod ctxt argc i True st = st"
  by (subst scan_loop.simps) simp

lemma scan_loop_retained:
  assumes "argv st = P @ replicate k None @ map Some rest" and "length P = i"
    and "argc = length (argv st)"
    and "\<forall>w \<in> set rest. c_string w" and "''-'' \<notin> set (before_marker rest)"
  shows "\<exists>X. argv (scan_loop strtod ctxt argc i False st) = P @ X
             \<and> filter (\<lambda>x. x \<noteq> None) X = map Some (retained (opt_desc ctxt) 0 rest)"
  using assms
proof (induction "k + length rest" arbitrary: i P k rest st)
  case 0
  then have "argc = i" and "k = 0" and "rest = []" by simp_all
  then have "scan_loop strtod ctxt argc i False st = st"
    by (subst scan_loop.simps) simp
  then show ?case using 0 by simp
next
  case (Suc n)
  have "length (argv st) = i + (k + length rest)" using Suc.prems(1,2) by simp
  then have lt: "i < argc" using Suc.hyps(2) Suc.prems(3) by linarith
  have unf: "scan_loop strtod ctxt argc i False st
               = scan_loop strtod ctxt argc (i + 1) (fst (scan_step strtod ctxt argc i st))
                   (snd (scan_step strtod ctxt argc i st))"
    using lt by (subst scan_loop.simps) (simp add: split_beta)
  show ?case
  proof (cases k)
    case (Suc k')
    have t: "argv st ! i = None" using Suc.prems(1,2) Suc by (simp add: nth_append)
    have s: "scan_step strtod ctxt argc i st = (False, st)"
      using t by (simp add: scan_step_def)
    have a: "argv st = (P @ [None]) @ replicate k' None @ map Some rest"
      using Suc.prems(1) Suc by simp
    have m: "n = k' + length rest" using Suc.hyps(2) Suc by simp
    have l: "length (P @ [None]) = i + 1" using Suc.prems(2) by simp
    from Suc.hyps(1)[OF m a l Suc.prems(3,4,5)] obtain X where
      X: "argv (scan_loop strtod ctxt argc (i + 1) False st) = (P @ [None]) @ X"
         "filter (\<lambda>x. x \<noteq> None) X = map Some (retained (opt_desc ctxt) 0 rest)"
      by blast
    have "argv (scan_loop strtod ctxt argc i False st) = P @ (None # X)"
      unfolding unf s using X(1) by simp
    moreover have "filter (\<lambda>x. x \<noteq> None) (None # X) = map Some (retained (opt_desc ctxt) 0 rest)"
      using X(2) by simp
    ultimately show ?thesis by blast
  next
    case 0
    then obtain w ws where r: "rest = w # ws" using Suc.hyps(2) by (cases rest) auto
    have av: "argv st = P @ Some w # map Some ws" using Suc.prems(1) 0 r by simp
    have t: "argv st ! i = Some w" using av Suc.prems(2) by (simp add: nth_append)
    have cw: "c_string w" and cws: "\<forall>w \<in> set ws. c_string w"
      using Suc.prems(4) r by auto
    have nd: "w \<noteq> ''-''" using Suc.prems(5) r by (cases "w = ''--''") auto
    have ndw: "''-'' \<notin> set (before_marker ws)" if "w \<noteq> ''--''"
      using Suc.prems(5) r that by simp
    have n: "n = length ws" using Suc.hyps(2) 0 r by simp
    from word_kinds[OF cw nd] show ?thesis
    proof (elim disjE)
      assume op: "char_at w 0 \<noteq> CHR ''-''"
      have s: "scan_step strtod ctxt argc i st = (False, st)"
        using scan_step_operand[OF t op] .
      have a: "argv st = (P @ [Some w]) @ replicate 0 None @ map Some ws" using av by simp
      have m: "n = 0 + length ws" using n by simp
      have l: "length (P @ [Some w]) = i + 1" using Suc.prems(2) by simp
      have ne: "w \<noteq> ''--''" using op by auto
      from Suc.hyps(1)[OF m a l Suc.prems(3) cws ndw[OF ne]] obtain X where
        X: "argv (scan_loop strtod ctxt argc (i + 1) False st) = (P @ [Some w]) @ X"
           "filter (\<lambda>x. x \<noteq> None) X = map Some (retained (opt_desc ctxt) 0 ws)"
        by blast
      have now: "\<not> option_word w" using op by (simp add: option_word_def)
      have "argv (scan_loop strtod ctxt argc i False st) = P @ (Some w # X)"
        unfolding unf s using X(1) by simp
      moreover have "filter (\<lambda>x. x \<noteq> None) (Some w # X)
                       = map Some (retained (opt_desc ctxt) 0 rest)"
        using X(2) r ne now by simp
      ultimately show ?thesis by blast
    next
      assume mk: "w = ''--''"
      have s: "scan_step strtod ctxt argc i st = (True, st\<lparr>argv := (argv st)[i := None]\<rparr>)"
        using scan_step_marker_word t mk by simp
      have "argv (scan_loop strtod ctxt argc i False st) = P @ (None # map Some ws)"
        unfolding unf s using av Suc.prems(2) by (simp add: scan_loop_stopped list_update_append)
      moreover have "filter (\<lambda>x. x \<noteq> None) (None # map Some ws)
                       = map Some (retained (opt_desc ctxt) 0 rest)"
        using r mk by simp
      ultimately show ?thesis by blast
    next
      assume ow: "option_word w \<and> w \<noteq> ''--''"
      define m where "m = min (values_wanted (opt_desc ctxt) w) (avail ws)"
      define st1 where "st1 = snd (scan_step strtod ctxt argc i st)"
      have f: "fst (scan_step strtod ctxt argc i st) = False"
        using scan_step_option_word(1)[OF av Suc.prems(2,3) cw] ow by blast
      have a1: "argv st1 = P @ None # replicate m None @ map Some (drop m ws)"
        unfolding st1_def m_def
        using scan_step_option_word(2)[OF av Suc.prems(2,3) cw] ow by blast
      have mle: "m \<le> length ws" using avail_le_length[of ws] by (simp add: m_def)
      have a: "argv st1 = (P @ [None]) @ replicate m None @ map Some (drop m ws)"
        using a1 by simp
      have ms: "n = m + length (drop m ws)" using n mle by simp
      have l: "length (P @ [None]) = i + 1" using Suc.prems(2) by simp
      have len: "argc = length (argv st1)"
        unfolding a1 using Suc.prems(3) av mle by simp
      have c': "\<forall>w \<in> set (drop m ws). c_string w" using cws by (meson in_set_dropD)
      have ma: "m \<le> avail ws" by (simp add: m_def)
      have "''-'' \<notin> set (before_marker ws)" using ndw ow by simp
      then have d': "''-'' \<notin> set (before_marker (drop m ws))"
        unfolding before_marker_drop[OF ma] by (meson in_set_dropD)
      from Suc.hyps(1)[OF ms a l len c' d'] obtain X where
        X: "argv (scan_loop strtod ctxt argc (i + 1) False st1) = (P @ [None]) @ X"
           "filter (\<lambda>x. x \<noteq> None) X = map Some (retained (opt_desc ctxt) 0 (drop m ws))"
        by blast
      have "argv (scan_loop strtod ctxt argc i False st) = P @ (None # X)"
        unfolding unf f st1_def[symmetric] using X(1) by simp
      moreover have "retained (opt_desc ctxt) 0 rest = retained (opt_desc ctxt) 0 (drop m ws)"
        using r ow retained_eager[of "opt_desc ctxt" "values_wanted (opt_desc ctxt) w" ws]
        by (simp add: m_def)
      then have "filter (\<lambda>x. x \<noteq> None) (None # X)
                       = map Some (retained (opt_desc ctxt) 0 rest)"
        using X(2) by simp
      ultimately show ?thesis by blast
    qed
  qed
qed

text \<open>
  Claim C2 as stated fails: the end marker \<open>--\<close> is consumed neither as an option nor as
  the value of an option, and the call removes it from the vector.  For \<open>demo x -- y\<close> the
  call leaves three words, not four.
\<close>

theorem compaction_counterexample:
  "(let r = dooshki_args_parse strtod_none cli_args_context 4
              [Some ''demo'', Some ''x'', Some ''--'', Some ''y''] Map.empty
    in words_of r = [Some ''demo'', Some ''x'', Some ''y''] \<and> res_argc r = 3
       \<and> Some ''--'' \<notin> set (words_of r))"
  by code_simp

text \<open>
  Claim C2, amended.  For a command line made of a program name and further words, with no
  single dash among the words before the first \<open>--\<close>: after the call, the first \<open>*argc\<close>
  entries of the vector are the program name (never scanned) followed by exactly the words
  that are neither consumed as an option or as the value of an option nor the end marker
  itself, in their original order and without a \<open>NULL\<close> among them, and \<open>*argc\<close> is
  their number.
\<close>

theorem compaction:
  assumes "\<forall>w \<in> set ws. c_string w" and "''-'' \<notin> set (before_marker ws)"
  shows "(let r = dooshki_args_parse strtod args_ctxt (Suc (length ws)) (map Some (prog # ws)) m;
              kept = retained (opt_desc args_ctxt) 0 ws
          in words_of r = map Some (prog # kept) \<and> res_argc r = Suc (length kept))"
proof -
  let ?av = "map Some (prog # ws)"
  let ?st = "scan_loop strtod args_ctxt (Suc (length ws)) 1 False (initial_state ?av m)"
  have a: "argv (initial_state ?av m) = [Some prog] @ replicate 0 None @ map Some ws"
    by (simp add: initial_state_def)
  have l: "Suc (length ws) = length (argv (initial_state ?av m))"
    by (simp add: initial_state_def)
  from scan_loop_retained[OF a _ l assms, of 1 strtod args_ctxt] obtain X where
    X: "argv ?st = [Some prog] @ X"
       "filter (\<lambda>x. x \<noteq> None) X = map Some (retained (opt_desc args_ctxt) 0 ws)"
    by auto
  have "length (argv ?st) = Suc (length ws)"
    by (simp add: scan_loop_length initial_state_def)
  then have lx: "length X = length ws" using X(1) by simp
  have d: "deflate_args_list (Suc (length ws)) (argv ?st)
             = (Suc (length (retained (opt_desc args_ctxt) 0 ws)),
                Some prog # map Some (retained (opt_desc args_ctxt) 0 ws)
                  @ replicate (length (filter (\<lambda>x. x = None) X)) None)"
    using deflate_loop_append[of "[Some prog]" X] X lx
    by (simp add: deflate_args_list_def)
  show ?thesis
    using d by (simp add: dooshki_args_parse_def Let_def words_of_def)
qed

theorem compaction_witness:
  "list_all c_string [''-a'', ''file1.txt'', ''-x'', ''-lc'', ''name'', ''5'', ''file2.txt'',
                      ''--label'', ''-a'', ''--'', ''-a'', ''-'']
   \<and> ''-'' \<notin> set (before_marker [''-a'', ''file1.txt'', ''-x'', ''-lc'', ''name'', ''5'',
                      ''file2.txt'', ''--label'', ''-a'', ''--'', ''-a'', ''-''])
   \<and> words_of (dooshki_args_parse strtod_none cli_args_context 13
         (map Some (''demo'' # [''-a'', ''file1.txt'', ''-x'', ''-lc'', ''name'', ''5'', ''file2.txt'',
                      ''--label'', ''-a'', ''--'', ''-a'', ''-''])) Map.empty)
       = [Some ''demo'', Some ''file1.txt'', Some ''file2.txt'', Some ''-a'', Some ''-'']
   \<and> res_argc (dooshki_args_parse strtod_none cli_args_context 13
         (map Some (''demo'' # [''-a'', ''file1.txt'', ''-x'', ''-lc'', ''name'', ''5'', ''file2.txt'',
                      ''--label'', ''-a'', ''--'', ''-a'', ''-''])) Map.empty) = 5"
proof -
  let ?ws = "[''-a'', ''file1.txt'', ''-x'', ''-lc'', ''name'', ''5'', ''file2.txt'',
              ''--label'', ''-a'', ''--'', ''-a'', ''-'']"
  have c: "\<forall>w \<in> set ?ws. c_string w" by (simp add: c_string_def)
  have d: "''-'' \<notin> set (before_marker ?ws)" by simp
  have k: "retained (opt_desc cli_args_context) 0 ?ws
             = [''file1.txt'', ''file2.txt'', ''-a'', ''-'']"
    by code_simp
  have n: "Suc (length ?ws) = 13" by simp
  show ?thesis
    using c d compaction [OF c d, where strtod = strtod_none and args_ctxt = cli_args_context
        and prog = "''demo''" and m = Map.empty]
    unfolding Let_def k n by (simp add: list_all_iff)
qed

end
